theory Spec2Isabelle
  imports Complex_Main
begin

section \<open>Errors\<close>

text \<open>
  The exceptions of train.py that the model keeps as values. Tensor entries and learning
  rates are Python/torch floats; they are modelled as real numbers, so the statements
  below are about the exact arithmetic the floating-point code approximates. The one
  exception is \<open>get_lr_f64\<close>, which rounds every operation of the schedule to binary64.
\<close>

datatype error =
    ZeroDivisionError
  | IndexError
  | AssertionError
  | RuntimeError
  | NanLoss

section \<open>AverageMeter\<close>

text \<open>
  The class stores four numbers besides its name. \<open>reset\<close> zeroes them; \<open>update\<close>
  assigns the fields in the order of the source and divides last, so a zero count raises
  ZeroDivisionError.
\<close>

record average_meter =
  name :: string
  val :: real
  avg :: real
  sum_meter :: real
  count_meter :: int

definition reset :: "average_meter \<Rightarrow> average_meter" where
  "reset m = m\<lparr>val := 0, avg := 0, sum_meter := 0, count_meter := 0\<rparr>"

definition init_meter :: "string \<Rightarrow> average_meter" where
  "init_meter nm = reset \<lparr>name = nm, val = 0, avg = 0, sum_meter = 0, count_meter = 0\<rparr>"

definition update :: "average_meter \<Rightarrow> real \<Rightarrow> int \<Rightarrow> error + average_meter" where
  "update m v n =
     (let s = sum_meter m + v * of_int n;
          c = count_meter m + n
      in if c = 0 then Inl ZeroDivisionError
         else Inr (m\<lparr>val := v, sum_meter := s, count_meter := c, avg := s / of_int c\<rparr>))"

text \<open>A sequence of calls \<open>update(val_i, n_i)\<close>; the first exception ends it.\<close>

fun updates :: "average_meter \<Rightarrow> (real \<times> int) list \<Rightarrow> error + average_meter" where
  "updates m [] = Inr m"
| "updates m ((v, n) # ups) =
     (case update m v n of Inl e \<Rightarrow> Inl e | Inr m' \<Rightarrow> updates m' ups)"

section \<open>The learning-rate schedule\<close>

text \<open>
  \<open>get_lr\<close> divides the step by the total number of steps with Python's true division,
  which raises on a zero divisor before the cosine is taken. This is line 81 in exact
  arithmetic; the subsection below rounds it.
\<close>

definition get_lr :: "real \<Rightarrow> real \<Rightarrow> real \<Rightarrow> real \<Rightarrow> error + real" where
  "get_lr step total_steps lr_max lr_min =
     (if total_steps = 0 then Inl ZeroDivisionError
      else Inr (lr_min + (lr_max - lr_min) * 0.5 * (1 + cos (step / total_steps * pi))))"

subsection \<open>The schedule in binary64\<close>

text \<open>
  Python evaluates line 81 in binary64. \<open>rne\<close> rounds a real number to the nearest
  integer and a tie to the even one; \<open>ulp x\<close> is the distance between neighbouring
  binary64 numbers in the binade of \<open>x\<close> (53 significant bits); \<open>f64 x\<close> is the binary64
  number nearest to \<open>x\<close>, a tie going to the even significand. The exponent is not
  bounded here: \<open>f64\<close> is the rounding of the machine wherever the exact result is zero or
  has a magnitude in \<open>[2^-1022, 2^1024)\<close>, where binary64 neither overflows nor loses
  bits to a subnormal. \<open>in_range\<close> keeps an operand far inside that interval.
\<close>

definition rne :: "real \<Rightarrow> int" where
  "rne y =
     (let f = \<lfloor>y\<rfloor>; r = y - of_int f
      in if r < 1 / 2 then f else if 1 / 2 < r then f + 1 else if even f then f else f + 1)"

definition ulp :: "real \<Rightarrow> real" where
  "ulp x = 2 powr (of_int \<lfloor>log 2 \<bar>x\<bar>\<rfloor> - 52)"

definition f64 :: "real \<Rightarrow> real" where
  "f64 x = (if x = 0 then 0 else of_int (rne (x / ulp x)) * ulp x)"

definition in_range :: "real \<Rightarrow> bool" where
  "in_range x \<longleftrightarrow> x = 0 \<or> (1 / 2 ^ 900 \<le> \<bar>x\<bar> \<and> \<bar>x\<bar> \<le> 2 ^ 900)"

text \<open>\<open>np.pi\<close>, the binary64 number nearest to \<open>pi\<close>: 3.141592653589793.\<close>

definition np_pi :: real where
  "np_pi = 884279719003555 / 2 ^ 48"

text \<open>
  \<open>get_lr\<close> as the machine evaluates it: each operation of line 81 rounds its exact
  result, in Python's order of evaluation (the product \<open>(lr_max - lr_min) * 0.5\<close> is
  formed before it is multiplied by \<open>1 + cos\<close>). The step and the number of steps are
  Python integers, as at the call in \<open>train\<close>; their quotient is Python's true
  division, which rounds the exact quotient once and raises on a zero divisor.
  \<open>np.cos\<close> is numpy's, not this repository's: it is the parameter \<open>np_cos\<close>, and a
  theorem says what it asks of it.
\<close>

definition get_lr_f64 :: "(real \<Rightarrow> real) \<Rightarrow> int \<Rightarrow> int \<Rightarrow> real \<Rightarrow> real \<Rightarrow> error + real" where
  "get_lr_f64 np_cos step total_steps lr_max lr_min =
     (if total_steps = 0 then Inl ZeroDivisionError
      else Inr (f64 (lr_min + f64 (f64 (f64 (lr_max - lr_min) * 0.5)
             * f64 (1 + np_cos (f64 (f64 (of_int step / of_int total_steps) * np_pi)))))))"

section \<open>Targets of the contrastive loss\<close>

text \<open>
  \<open>torch.arange(n)\<close>, and the in-place addition on a strided slice
  \<open>xs[start::step] += d\<close>, which touches the positions \<open>start, start + step, ...\<close>.
\<close>

definition arange :: "nat \<Rightarrow> int list" where
  "arange n = map int [0..<n]"

definition slice_add :: "nat \<Rightarrow> nat \<Rightarrow> int \<Rightarrow> int list \<Rightarrow> int list" where
  "slice_add start step d xs =
     map (\<lambda>(i, a). if start \<le> i \<and> (i - start) mod step = 0 then a + d else a)
       (zip [0..<length xs] xs)"

definition targets :: "nat \<Rightarrow> int list" where
  "targets n = slice_add 1 2 (- 1) (slice_add 0 2 1 (arange n))"

section \<open>Tensor operations used by the loss\<close>

text \<open>
  A matrix is the list of its rows. The operations are those \<open>nt_xent\<close> calls, with the
  arguments it gives them: \<open>F.normalize(x, dim=1)\<close> divides each row by the larger of
  its Euclidean norm and \<open>eps = 1e-12\<close>; \<open>a @ b.T\<close> holds at \<open>(i, j)\<close> the dot product of
  row \<open>i\<close> of \<open>a\<close> and row \<open>j\<close> of \<open>b\<close>; \<open>clamp(min=c)\<close> replaces every entry below \<open>c\<close> by
  \<open>c\<close>.
\<close>

type_synonym vec = "real list"
type_synonym matrix = "real list list"

definition dot :: "vec \<Rightarrow> vec \<Rightarrow> real" where
  "dot u v = sum_list (map (\<lambda>(a, b). a * b) (zip u v))"

definition norm2 :: "vec \<Rightarrow> real" where
  "norm2 v = sqrt (sum_list (map (\<lambda>a. a\<^sup>2) v))"

definition normalize_row :: "vec \<Rightarrow> vec" where
  "normalize_row v = map (\<lambda>a. a / max (norm2 v) (1 / 10 ^ 12)) v"

definition normalize :: "matrix \<Rightarrow> matrix" where
  "normalize x = map normalize_row x"

definition matmul_T :: "matrix \<Rightarrow> matrix \<Rightarrow> matrix" where
  "matmul_T a b = map (\<lambda>u. map (\<lambda>v. dot u v) b) a"

definition clamp_min :: "matrix \<Rightarrow> real \<Rightarrow> matrix" where
  "clamp_min m c = map (map (\<lambda>a. max a c)) m"

definition div_scalar :: "matrix \<Rightarrow> real \<Rightarrow> matrix" where
  "div_scalar m t = map (map (\<lambda>a. a / t)) m"

definition mul_scalar :: "matrix \<Rightarrow> real \<Rightarrow> matrix" where
  "mul_scalar m c = map (map (\<lambda>a. a * c)) m"

definition eye :: "nat \<Rightarrow> matrix" where
  "eye n = map (\<lambda>i. map (\<lambda>j. if i = j then 1 else 0) [0..<n]) [0..<n]"

definition mat_sub :: "matrix \<Rightarrow> matrix \<Rightarrow> matrix" where
  "mat_sub a b = map (\<lambda>(u, v). map (\<lambda>(p, q). p - q) (zip u v)) (zip a b)"

text \<open>
  \<open>F.cross_entropy(input, target)\<close> with its default mean reduction: row \<open>i\<close> of the input
  holds unnormalised logits, its loss is minus the entry of its log-softmax at the
  row's target, and the result is the mean of the row losses. A target outside
  \<open>[0, C)\<close> for \<open>C\<close> classes is refused (the targets built by \<open>nt_xent\<close> are never
  negative, so the ignore index of torch plays no part). Zero rows have no mean.
\<close>

definition log_softmax :: "vec \<Rightarrow> vec" where
  "log_softmax v = map (\<lambda>a. a - ln (sum_list (map exp v))) v"

definition cross_entropy :: "matrix \<Rightarrow> int list \<Rightarrow> error + real" where
  "cross_entropy inp tgt =
     (if \<not> list_all (\<lambda>(row, c). 0 \<le> c \<and> c < int (length row)) (zip inp tgt)
      then Inl IndexError
      else if inp = [] then Inl NanLoss
      else Inr (sum_list (map (\<lambda>(row, c). - (log_softmax row ! nat c)) (zip inp tgt))
                / real (length inp)))"

section \<open>The contrastive loss\<close>

text \<open>
  \<open>nt_xent\<close> follows the source line by line. Dividing by a zero temperature raises
  nothing in torch: every score is at least \<open>1e-7\<close>, so every logit becomes infinite and
  the loss is not a number, which the model returns as \<open>NanLoss\<close>.
\<close>

definition nt_xent :: "matrix \<Rightarrow> real \<Rightarrow> error + real" where
  "nt_xent x t =
     (let x = normalize x;
          x_scores = clamp_min (matmul_T x x) (1 / 10 ^ 7);
          x_scale = div_scalar x_scores t;
          x_scale = mat_sub x_scale (mul_scalar (eye (length x_scale)) (10 ^ 5));
          tgt = targets (length x)
      in case cross_entropy x_scale tgt of
           Inl e \<Rightarrow> Inl e
         | Inr loss \<Rightarrow> if t = 0 then Inl NanLoss else Inr loss)"

text \<open>
  The cosine similarity of rows \<open>i\<close> and \<open>j\<close> as the loss sees it, the logit at \<open>(i, j)\<close>,
  the index paired with a row, and the loss of one row.
\<close>

definition sim :: "matrix \<Rightarrow> nat \<Rightarrow> nat \<Rightarrow> real" where
  "sim x i j = dot (normalize_row (x ! i)) (normalize_row (x ! j))"

definition logit :: "matrix \<Rightarrow> real \<Rightarrow> nat \<Rightarrow> nat \<Rightarrow> real" where
  "logit x t i j = max (sim x i j) (1 / 10 ^ 7) / t - (if i = j then 10 ^ 5 else 0)"

definition pair :: "nat \<Rightarrow> nat" where
  "pair i = (if even i then i + 1 else i - 1)"

definition row_loss :: "matrix \<Rightarrow> real \<Rightarrow> nat \<Rightarrow> real" where
  "row_loss x t i =
     ln (\<Sum>j<length x. exp (logit x t i j)) - logit x t i (pair i)"


section \<open>The loss as the specification words it\<close>






section \<open>The paired dataset and the batch layout\<close>

text \<open>
  \<open>CIFAR10Pair\<close> holds the images and their labels and a random transform. The
  transform draws from torch's random state, which the model passes explicitly: it
  takes the image and the state and returns the view and the next state. Indexing
  follows Python: a negative index counts from the end, an index out of range raises.
\<close>

record ('img, 'rng, 'view) cifar10_pair =
  data :: "'img list"
  labels :: "int list"
  transform :: "'img \<Rightarrow> 'rng \<Rightarrow> 'view \<times> 'rng"

definition index :: "'a list \<Rightarrow> int \<Rightarrow> error + 'a" where
  "index xs i =
     (if 0 \<le> i \<and> i < int (length xs) then Inr (xs ! nat i)
      else if i < 0 \<and> - int (length xs) \<le> i then Inr (xs ! nat (int (length xs) + i))
      else Inl IndexError)"

definition getitem ::
  "('img, 'rng, 'view) cifar10_pair \<Rightarrow> int \<Rightarrow> 'rng \<Rightarrow> error + (('view list \<times> int) \<times> 'rng)" where
  "getitem ds idx rng =
     (case index (data ds) idx of
        Inl e \<Rightarrow> Inl e
      | Inr img \<Rightarrow>
          (case index (labels ds) idx of
             Inl e \<Rightarrow> Inl e
           | Inr target \<Rightarrow>
               (let (v1, rng1) = transform ds img rng;
                    (v2, rng2) = transform ds img rng1
                in Inr (([v1, v2], target), rng2))))"

text \<open>
  The loader fetches the items of a batch of indices in order and stacks the pairs into
  a tensor of shape \<open>(N, 2, ...)\<close>, here the list of the pairs. The training loop merges
  the first two axes with \<open>x.view(sizes[0] * 2, ...)\<close>, which keeps the row-major order
  and is refused when the second axis is not of size 2.
\<close>

fun fetch ::
  "('img, 'rng, 'view) cifar10_pair \<Rightarrow> int list \<Rightarrow> 'rng
     \<Rightarrow> error + (('view list \<times> int) list \<times> 'rng)" where
  "fetch ds [] rng = Inr ([], rng)"
| "fetch ds (i # idxs) rng =
     (case getitem ds i rng of
        Inl e \<Rightarrow> Inl e
      | Inr (item, rng') \<Rightarrow>
          (case fetch ds idxs rng' of
             Inl e \<Rightarrow> Inl e
           | Inr (items, rng'') \<Rightarrow> Inr (item # items, rng'')))"

definition view_pairs :: "'view list list \<Rightarrow> error + 'view list" where
  "view_pairs x = (if list_all (\<lambda>p. length p = 2) x then Inr (concat x) else Inl RuntimeError)"

section \<open>The training driver\<close>

text \<open>
  \<open>train\<close> is modelled by the order of its effects: it returns the trace of what it
  did and either the final state or the exception that ended the run, together with
  the trace up to it. The collaborators (dataset download, disentangler, model,
  optimizer) are taken to succeed; \<open>len_loader\<close> is \<open>len(train_loader)\<close>, the number of
  batches of an epoch. An optimizer step records the learning rate of the parameter
  group at that moment.

  \<open>LambdaLR\<close> keeps the rate the optimizer was built with as base rate and sets the
  rate of the group to the base rate times \<open>lr_lambda(last_epoch)\<close>, once when it is
  built (with \<open>last_epoch = 0\<close>) and again at each \<open>scheduler.step()\<close>, which first adds
  one to \<open>last_epoch\<close>; the source says so itself where it passes its arguments
  (\<open>lr_lambda computes multiplicative factor\<close>).
\<close>

record config =
  backbone :: string
  epochs :: int
  learning_rate :: real
  log_interval :: int

datatype event =
    PrintProjectionDim
  | SetCudnnBenchmark
  | EmptyCudaCache
  | BuildTransform
  | LoadDataset
  | BuildDataLoader
  | FitDisentangler
  | BuildModel
  | LogInfo
  | BuildOptimizer
  | BuildScheduler
  | ModelTrain
  | NewMeter
  | ZeroGrad
  | Forward
  | Backward
  | OptimizerStep real
  | SchedulerStep
  | MeterUpdate
  | SaveCheckpoint int

record train_state =
  trace :: "event list"
  lr :: real
  last_epoch :: int

definition lr_lambda :: "config \<Rightarrow> nat \<Rightarrow> int \<Rightarrow> error + real" where
  "lr_lambda args len_loader step =
     get_lr (of_int step) (of_int (epochs args * int len_loader)) (learning_rate args) (1 / 10 ^ 3)"

definition scheduler_step :: "config \<Rightarrow> nat \<Rightarrow> train_state \<Rightarrow> (error \<times> event list) + train_state" where
  "scheduler_step args len_loader st =
     (case lr_lambda args len_loader (last_epoch st + 1) of
        Inl e \<Rightarrow> Inl (e, trace st)
      | Inr factor \<Rightarrow>
          Inr (st\<lparr>trace := trace st @ [SchedulerStep],
                  lr := learning_rate args * factor,
                  last_epoch := last_epoch st + 1\<rparr>))"

text \<open>The body of the batch loop, run for the batches that remain in the epoch.\<close>

fun batch_loop :: "config \<Rightarrow> nat \<Rightarrow> nat \<Rightarrow> train_state \<Rightarrow> (error \<times> event list) + train_state" where
  "batch_loop args len_loader 0 st = Inr st"
| "batch_loop args len_loader (Suc k) st =
     (let st = st\<lparr>trace := trace st @ [ZeroGrad, Forward, Backward, OptimizerStep (lr st)]\<rparr>
      in case scheduler_step args len_loader st of
           Inl e \<Rightarrow> Inl e
         | Inr st \<Rightarrow>
             batch_loop args len_loader k (st\<lparr>trace := trace st @ [MeterUpdate]\<rparr>))"

text \<open>
  The epoch loop over \<open>range(1, epochs + 1)\<close>, from the current epoch on; the checkpoint
  test is \<open>epoch >= log_interval and epoch % log_interval == 0\<close>, whose second half
  raises on a zero interval.
\<close>

fun epoch_loop ::
  "config \<Rightarrow> nat \<Rightarrow> nat \<Rightarrow> int \<Rightarrow> train_state \<Rightarrow> (error \<times> event list) + train_state" where
  "epoch_loop args len_loader 0 epoch st = Inr st"
| "epoch_loop args len_loader (Suc n) epoch st =
     (case batch_loop args len_loader len_loader (st\<lparr>trace := trace st @ [NewMeter]\<rparr>) of
        Inl e \<Rightarrow> Inl e
      | Inr st \<Rightarrow>
          if epoch \<ge> log_interval args then
            if log_interval args = 0 then Inl (ZeroDivisionError, trace st)
            else if epoch mod log_interval args = 0 then
              epoch_loop args len_loader n (epoch + 1)
                (st\<lparr>trace := trace st @ [LogInfo, SaveCheckpoint epoch]\<rparr>)
            else epoch_loop args len_loader n (epoch + 1) st
          else epoch_loop args len_loader n (epoch + 1) st)"

definition train :: "config \<Rightarrow> nat \<Rightarrow> (error \<times> event list) + train_state" where
  "train args len_loader =
     (let tr = [PrintProjectionDim, SetCudnnBenchmark, EmptyCudaCache, BuildTransform,
                LoadDataset, BuildDataLoader]
      in if backbone args \<notin> set [''resnet18'', ''resnet34''] then Inl (AssertionError, tr)
         else
           (let tr = tr @ [FitDisentangler, BuildModel, LogInfo, LogInfo, BuildOptimizer]
            in case lr_lambda args len_loader 0 of
                 Inl e \<Rightarrow> Inl (e, tr)
               | Inr factor \<Rightarrow>
                   epoch_loop args len_loader (nat (epochs args)) 1
                     \<lparr>trace = tr @ [BuildScheduler, ModelTrain],
                      lr = learning_rate args * factor,
                      last_epoch = 0\<rparr>))"

text \<open>The learning rates of the optimizer steps of a trace, in order.\<close>

fun applied_lrs :: "event list \<Rightarrow> real list" where
  "applied_lrs [] = []"
| "applied_lrs (OptimizerStep r # es) = r # applied_lrs es"
| "applied_lrs (e # es) = applied_lrs es"

text \<open>The rate the cosine formula gives at a step, for \<open>T\<close> total steps.\<close>

definition cosine_rate :: "real \<Rightarrow> real \<Rightarrow> real \<Rightarrow> real \<Rightarrow> real" where
  "cosine_rate s T r_max r_min = r_min + (r_max - r_min) * 0.5 * (1 + cos (s / T * pi))"

section \<open>Cosine similarity and the least loss\<close>







section \<open>Properties of AverageMeter\<close>

lemma updates_from:
  "list_all (\<lambda>(v, n). 0 < n) ups \<Longrightarrow> 0 \<le> count_meter m \<Longrightarrow>
   \<exists>m'. updates m ups = Inr m'
     \<and> count_meter m' = count_meter m + sum_list (map snd ups)
     \<and> sum_meter m' = sum_meter m + sum_list (map (\<lambda>(v, n). v * of_int n) ups)
     \<and> (ups \<noteq> [] \<longrightarrow> 0 < count_meter m' \<and> avg m' = sum_meter m' / of_int (count_meter m'))"
proof (induction ups arbitrary: m)
  case Nil
  then show ?case by simp
next
  case (Cons p ups)
  obtain v n where p: "p = (v, n)" by (cases p)
  from Cons.prems p have n: "0 < n" and rest: "list_all (\<lambda>(v, n). 0 < n) ups"
    by simp_all
  define m1 where "m1 = m\<lparr>val := v, sum_meter := sum_meter m + v * of_int n,
    count_meter := count_meter m + n,
    avg := (sum_meter m + v * of_int n) / of_int (count_meter m + n)\<rparr>"
  from n Cons.prems(2) have pos: "0 < count_meter m + n" by simp
  then have step: "update m v n = Inr m1"
    by (simp add: update_def Let_def m1_def)
  have c1: "0 \<le> count_meter m1" using pos by (simp add: m1_def)
  from Cons.IH [OF rest c1] obtain m' where
    run: "updates m1 ups = Inr m'"
    and cnt: "count_meter m' = count_meter m1 + sum_list (map snd ups)"
    and sm: "sum_meter m' = sum_meter m1 + sum_list (map (\<lambda>(v, n). v * of_int n) ups)"
    and av: "ups \<noteq> [] \<longrightarrow> 0 < count_meter m' \<and> avg m' = sum_meter m' / of_int (count_meter m')"
    by blast
  have last: "0 < count_meter m' \<and> avg m' = sum_meter m' / of_int (count_meter m')"
  proof (cases ups)
    case Nil
    with run have "m' = m1" by simp
    then show ?thesis using pos by (simp add: m1_def)
  next
    case (Cons q qs)
    with av show ?thesis by simp
  qed
  show ?case
    using step run cnt sm last by (simp add: p m1_def algebra_simps)
qed

text \<open>
  C10. After \<open>reset()\<close> and any finite sequence of calls \<open>update(val_i, n_i)\<close> with
  every \<open>n_i > 0\<close>, no call raises, \<open>count\<close> is the sum of the \<open>n_i\<close>, \<open>sum\<close> is the sum
  of the \<open>val_i * n_i\<close>, and \<open>avg\<close> is \<open>sum / count\<close>. The count is positive as soon as
  one update was made, so the quotient is a genuine one there; with no update at all
  the three fields are the zeros that \<open>reset\<close> wrote.
\<close>

theorem average_meter_invariant:
  assumes "list_all (\<lambda>(v, n). 0 < n) ups"
  shows "\<exists>m'. updates (reset m) ups = Inr m'
     \<and> count_meter m' = sum_list (map snd ups)
     \<and> sum_meter m' = sum_list (map (\<lambda>(v, n). v * of_int n) ups)
     \<and> avg m' = sum_meter m' / of_int (count_meter m')
     \<and> (ups \<noteq> [] \<longrightarrow> 0 < count_meter m')"
proof -
  have "0 \<le> count_meter (reset m)" by (simp add: reset_def)
  from updates_from [OF assms this] obtain m' where
    run: "updates (reset m) ups = Inr m'"
    and cnt: "count_meter m' = count_meter (reset m) + sum_list (map snd ups)"
    and sm: "sum_meter m' = sum_meter (reset m) + sum_list (map (\<lambda>(v, n). v * of_int n) ups)"
    and av: "ups \<noteq> [] \<longrightarrow> 0 < count_meter m' \<and> avg m' = sum_meter m' / of_int (count_meter m')"
    by blast
  have "avg m' = sum_meter m' / of_int (count_meter m')"
  proof (cases ups)
    case Nil
    with run have "m' = reset m" by simp
    then show ?thesis by (simp add: reset_def)
  next
    case (Cons q qs)
    with av show ?thesis by simp
  qed
  with run cnt sm av show ?thesis by (simp add: reset_def)
qed

theorem average_meter_invariant_witness:
  "list_all (\<lambda>(v, n). 0 < n) [(2 :: real, 3 :: int), (4, 1)]
   \<and> (\<exists>m'. updates (reset (init_meter ''SimCLR_loss'')) [(2, 3), (4, 1)] = Inr m'
     \<and> count_meter m' = 4 \<and> sum_meter m' = 10 \<and> avg m' = 5 / 2)"
proof -
  have h: "list_all (\<lambda>(v, n). 0 < n) [(2 :: real, 3 :: int), (4, 1)]" by simp
  from average_meter_invariant [OF h, of "init_meter ''SimCLR_loss''"] obtain m' where
    r: "updates (reset (init_meter ''SimCLR_loss'')) [(2, 3), (4, 1)] = Inr m'"
    and c: "count_meter m' = sum_list (map snd [(2 :: real, 3 :: int), (4, 1)])"
    and s: "sum_meter m' = sum_list (map (\<lambda>(v, n). v * of_int n) [(2 :: real, 3 :: int), (4, 1)])"
    and a: "avg m' = sum_meter m' / of_int (count_meter m')"
    by blast
  from c have c': "count_meter m' = 4" by simp
  from s have s': "sum_meter m' = 10" by simp
  from a c' s' have "avg m' = 5 / 2" by simp
  with h r c' s' show ?thesis by blast
qed

section \<open>Properties of the learning-rate schedule\<close>

lemma get_lr_value:
  "T \<noteq> 0 \<Longrightarrow>
   get_lr s T lr_max lr_min = Inr (lr_min + (lr_max - lr_min) * 0.5 * (1 + cos (s / T * pi)))"
  by (simp add: get_lr_def)

lemma get_lr_antimono:
  assumes T: "0 < T" and le: "lr_min \<le> lr_max"
    and s: "0 \<le> s1" "s1 \<le> s2" "s2 \<le> T"
  shows "lr_min + (lr_max - lr_min) * 0.5 * (1 + cos (s2 / T * pi))
       \<le> lr_min + (lr_max - lr_min) * 0.5 * (1 + cos (s1 / T * pi))"
proof -
  have a: "0 \<le> s1 / T * pi" using T s by simp
  have b: "s1 / T * pi \<le> s2 / T * pi" using T s by (simp add: divide_right_mono)
  have "s2 / T \<le> 1" using T s by simp
  then have "s2 / T * pi \<le> 1 * pi" by (rule mult_right_mono) simp
  then have c: "s2 / T * pi \<le> pi" by simp
  have "cos (s2 / T * pi) \<le> cos (s1 / T * pi)"
    by (rule cos_monotone_0_pi_le [OF a b c])
  then have "(lr_max - lr_min) * 0.5 * (1 + cos (s2 / T * pi))
      \<le> (lr_max - lr_min) * 0.5 * (1 + cos (s1 / T * pi))"
    using le by (intro mult_left_mono) simp_all
  then show ?thesis by simp
qed

subsection \<open>Rounding to the nearest integer\<close>

lemma rne_of_int [simp]: "rne (of_int n) = n"
  by (simp add: rne_def)

lemma rne_cases:
  "rne y = \<lfloor>y\<rfloor> \<and> y - of_int \<lfloor>y\<rfloor> \<le> 1 / 2
   \<or> rne y = \<lfloor>y\<rfloor> + 1 \<and> 1 / 2 \<le> y - of_int \<lfloor>y\<rfloor>"
  by (auto simp: rne_def Let_def)

lemma rne_ge_floor: "\<lfloor>y\<rfloor> \<le> rne y"
  using rne_cases [of y] by auto

lemma rne_le_ceiling: "rne y \<le> \<lceil>y\<rceil>"
proof -
  from rne_cases [of y] show ?thesis
  proof
    assume "rne y = \<lfloor>y\<rfloor> \<and> y - of_int \<lfloor>y\<rfloor> \<le> 1 / 2"
    then show ?thesis by (simp add: floor_le_ceiling)
  next
    assume a: "rne y = \<lfloor>y\<rfloor> + 1 \<and> 1 / 2 \<le> y - of_int \<lfloor>y\<rfloor>"
    then have "of_int \<lfloor>y\<rfloor> < y" by linarith
    then have "\<lfloor>y\<rfloor> < \<lceil>y\<rceil>" by (simp add: less_ceiling_iff)
    with a show ?thesis by simp
  qed
qed

lemma rne_mono:
  assumes "a \<le> b"
  shows "rne a \<le> rne b"
proof (cases "\<lfloor>a\<rfloor> < \<lfloor>b\<rfloor>")
  case True
  have "rne a \<le> \<lfloor>a\<rfloor> + 1" using rne_cases [of a] by auto
  also have "\<dots> \<le> \<lfloor>b\<rfloor>" using True by simp
  also have "\<dots> \<le> rne b" by (rule rne_ge_floor)
  finally show ?thesis .
next
  case False
  with assms have eq: "\<lfloor>a\<rfloor> = \<lfloor>b\<rfloor>"
    using floor_mono [OF assms] by simp
  then have "a - of_int \<lfloor>a\<rfloor> \<le> b - of_int \<lfloor>b\<rfloor>" using assms by simp
  then show ?thesis
    using eq by (auto simp: rne_def Let_def)
qed

lemma rne_minus: "rne (- y) = - rne y"
proof (cases "y = of_int \<lfloor>y\<rfloor>")
  case True
  then have "rne y = \<lfloor>y\<rfloor>" by (metis rne_of_int)
  moreover from True have "- y = of_int (- \<lfloor>y\<rfloor>)" by simp
  then have "rne (- y) = - \<lfloor>y\<rfloor>" by (metis rne_of_int)
  ultimately show ?thesis by simp
next
  case False
  then have ne: "of_int \<lfloor>y\<rfloor> \<noteq> y" by (rule not_sym)
  have lt: "of_int \<lfloor>y\<rfloor> < y"
    by (rule order.not_eq_order_implies_strict [OF ne of_int_floor_le])
  have up: "y < of_int \<lfloor>y\<rfloor> + 1" by linarith
  have fl: "\<lfloor>- y\<rfloor> = - \<lfloor>y\<rfloor> - 1"
  proof (rule floor_unique)
    have c: "of_int (- \<lfloor>y\<rfloor> - 1) = - of_int \<lfloor>y\<rfloor> - (1 :: real)" by simp
    show "of_int (- \<lfloor>y\<rfloor> - 1) \<le> - y" unfolding c using up by linarith
    show "- y < of_int (- \<lfloor>y\<rfloor> - 1) + 1" unfolding c using lt by linarith
  qed
  have par: "even (- \<lfloor>y\<rfloor> - 1) \<longleftrightarrow> odd \<lfloor>y\<rfloor>" by simp
  show ?thesis
    unfolding rne_def Let_def fl using lt par
    by (auto simp: algebra_simps)
qed

subsection \<open>The unit in the last place\<close>

lemma ulp_pos [simp]: "0 < ulp x"
  by (simp add: ulp_def)

lemma exponent_bounds:
  assumes "x \<noteq> 0"
  shows "2 powr of_int \<lfloor>log 2 \<bar>x\<bar>\<rfloor> \<le> \<bar>x\<bar>"
    and "\<bar>x\<bar> < 2 powr (of_int \<lfloor>log 2 \<bar>x\<bar>\<rfloor> + 1)"
proof -
  have "0 < \<bar>x\<bar>" using assms by simp
  from floor_log_eq_powr_iff [OF this, of 2 "\<lfloor>log 2 \<bar>x\<bar>\<rfloor>"]
  show "2 powr of_int \<lfloor>log 2 \<bar>x\<bar>\<rfloor> \<le> \<bar>x\<bar>"
    and "\<bar>x\<bar> < 2 powr (of_int \<lfloor>log 2 \<bar>x\<bar>\<rfloor> + 1)"
    by simp_all
qed

lemma ulp_eq:
  assumes "x \<noteq> 0" "2 powr of_int e \<le> \<bar>x\<bar>" "\<bar>x\<bar> < 2 powr (of_int e + 1)"
  shows "ulp x = 2 powr (of_int e - 52)"
proof -
  have "0 < \<bar>x\<bar>" using assms(1) by simp
  from floor_log_eq_powr_iff [OF this, of 2 e] assms(2,3)
  have "\<lfloor>log 2 \<bar>x\<bar>\<rfloor> = e" by simp
  then show ?thesis by (simp add: ulp_def)
qed

lemma ulp_times:
  "2 ^ 52 * ulp x = 2 powr of_int \<lfloor>log 2 \<bar>x\<bar>\<rfloor>"
  "2 ^ 53 * ulp x = 2 powr (of_int \<lfloor>log 2 \<bar>x\<bar>\<rfloor> + 1)"
proof -
  let ?E = "real_of_int \<lfloor>log 2 \<bar>x\<bar>\<rfloor>"
  have a: "(2 :: real) ^ 52 = 2 powr 52" and b: "(2 :: real) ^ 53 = 2 powr 53"
    by (simp_all only: powr_numeral zero_less_numeral)
  have e0: "52 + (?E - 52) = ?E" and e1: "53 + (?E - 52) = ?E + 1"
    by simp_all
  show "2 ^ 52 * ulp x = 2 powr ?E"
    unfolding a ulp_def powr_add [symmetric] e0 by (rule refl)
  show "2 ^ 53 * ulp x = 2 powr (?E + 1)"
    unfolding b ulp_def powr_add [symmetric] e1 by (rule refl)
qed

lemma scaled_bounds:
  assumes "x \<noteq> 0"
  shows "2 ^ 52 \<le> \<bar>x\<bar> / ulp x" and "\<bar>x\<bar> / ulp x < 2 ^ 53"
proof -
  have "2 ^ 52 * ulp x \<le> \<bar>x\<bar>"
    unfolding ulp_times(1) by (rule exponent_bounds(1) [OF assms])
  then show "2 ^ 52 \<le> \<bar>x\<bar> / ulp x"
    by (simp only: pos_le_divide_eq [OF ulp_pos])
  have "\<bar>x\<bar> < 2 ^ 53 * ulp x"
    unfolding ulp_times(2) by (rule exponent_bounds(2) [OF assms])
  then show "\<bar>x\<bar> / ulp x < 2 ^ 53"
    by (simp only: pos_divide_less_eq [OF ulp_pos])
qed

lemma rne_scaled_bounds:
  assumes "0 < x"
  shows "2 ^ 52 \<le> rne (x / ulp x)" and "rne (x / ulp x) \<le> 2 ^ 53"
proof -
  have x: "x \<noteq> 0" "\<bar>x\<bar> = x" using assms by simp_all
  have lo: "of_int (2 ^ 52) \<le> x / ulp x" and hi: "x / ulp x \<le> of_int (2 ^ 53)"
    using scaled_bounds [OF x(1)] by (simp_all add: x(2))
  have "2 ^ 52 \<le> \<lfloor>x / ulp x\<rfloor>" using lo by (simp only: le_floor_iff)
  then show "2 ^ 52 \<le> rne (x / ulp x)"
    using rne_ge_floor [of "x / ulp x"] by linarith
  have "\<lceil>x / ulp x\<rceil> \<le> 2 ^ 53" using hi by (simp only: ceiling_le_iff)
  then show "rne (x / ulp x) \<le> 2 ^ 53"
    using rne_le_ceiling [of "x / ulp x"] by linarith
qed

subsection \<open>Rounding to binary64\<close>

lemma f64_0 [simp]: "f64 0 = 0"
  by (simp add: f64_def)

lemma ulp_minus [simp]: "ulp (- x) = ulp x"
  by (simp add: ulp_def)

lemma f64_minus: "f64 (- x) = - f64 x"
  by (simp add: f64_def rne_minus)

lemma f64_pos_bounds:
  assumes "0 < x"
  shows "2 powr of_int \<lfloor>log 2 x\<rfloor> \<le> f64 x" and "f64 x \<le> 2 powr (of_int \<lfloor>log 2 x\<rfloor> + 1)"
proof -
  have x: "x \<noteq> 0" "\<bar>x\<bar> = x" using assms by simp_all
  have f: "f64 x = of_int (rne (x / ulp x)) * ulp x" using x by (simp add: f64_def)
  have t1: "2 ^ 52 * ulp x = 2 powr of_int \<lfloor>log 2 x\<rfloor>"
    and t2: "2 ^ 53 * ulp x = 2 powr (of_int \<lfloor>log 2 x\<rfloor> + 1)"
    using ulp_times [of x] by (simp_all only: x(2))
  have "of_int (2 ^ 52) \<le> (of_int (rne (x / ulp x)) :: real)"
    using rne_scaled_bounds(1) [OF assms] by (simp only: of_int_le_iff)
  then have "(2 :: real) ^ 52 \<le> of_int (rne (x / ulp x))"
    by (simp only: of_int_power of_int_numeral)
  then have "2 ^ 52 * ulp x \<le> of_int (rne (x / ulp x)) * ulp x"
    by (rule mult_right_mono) (rule less_imp_le [OF ulp_pos])
  then show "2 powr of_int \<lfloor>log 2 x\<rfloor> \<le> f64 x"
    unfolding f t1 .
  have "(of_int (rne (x / ulp x)) :: real) \<le> of_int (2 ^ 53)"
    using rne_scaled_bounds(2) [OF assms] by (simp only: of_int_le_iff)
  then have "of_int (rne (x / ulp x)) \<le> (2 :: real) ^ 53"
    by (simp only: of_int_power of_int_numeral)
  then have "of_int (rne (x / ulp x)) * ulp x \<le> 2 ^ 53 * ulp x"
    by (rule mult_right_mono) (rule less_imp_le [OF ulp_pos])
  then show "f64 x \<le> 2 powr (of_int \<lfloor>log 2 x\<rfloor> + 1)"
    unfolding f t2 .
qed

lemma f64_nonneg: "0 \<le> x \<Longrightarrow> 0 \<le> f64 x"
proof (cases "x = 0")
  case True
  then show ?thesis by simp
next
  case False
  assume "0 \<le> x"
  with False have "0 < x" by simp
  from f64_pos_bounds(1) [OF this] show ?thesis
    by (rule order_trans [rotated]) simp
qed

lemma f64_nonpos: "x \<le> 0 \<Longrightarrow> f64 x \<le> 0"
  using f64_nonneg [of "- x"] by (simp add: f64_minus)

lemma powr_split:
  "(2 :: real) powr of_int (k + 52) = 2 ^ 52 * 2 powr of_int k"
  "(2 :: real) powr (of_int (k + 52) + 1) = 2 ^ 53 * 2 powr of_int k"
  "(2 :: real) powr of_int (k + 53) = 2 ^ 53 * 2 powr of_int k"
  "(2 :: real) powr (of_int (k + 53) + 1) = 2 * (2 ^ 53 * 2 powr of_int k)"
  "(2 :: real) powr (of_int (k + 53) - 52) = 2 * 2 powr of_int k"
proof -
  have a: "(2 :: real) ^ 52 = 2 powr 52" and b: "(2 :: real) ^ 53 = 2 powr 53"
    by (simp_all only: powr_numeral zero_less_numeral)
  have e: "real_of_int (k + 52) = 52 + of_int k"
    "real_of_int (k + 52) + 1 = 53 + of_int k"
    "real_of_int (k + 53) = 53 + of_int k"
    "real_of_int (k + 53) + 1 = 1 + (53 + of_int k)"
    "real_of_int (k + 53) - 52 = 1 + of_int k"
    by simp_all
  have one: "(2 :: real) powr 1 = 2" by simp
  show "(2 :: real) powr of_int (k + 52) = 2 ^ 52 * 2 powr of_int k"
    unfolding e(1) a powr_add by (rule refl)
  show "(2 :: real) powr (of_int (k + 52) + 1) = 2 ^ 53 * 2 powr of_int k"
    unfolding e(2) b powr_add by (rule refl)
  show "(2 :: real) powr of_int (k + 53) = 2 ^ 53 * 2 powr of_int k"
    unfolding e(3) b powr_add by (rule refl)
  show "(2 :: real) powr (of_int (k + 53) + 1) = 2 * (2 ^ 53 * 2 powr of_int k)"
    unfolding e(4) b powr_add one by (rule refl)
  show "(2 :: real) powr (of_int (k + 53) - 52) = 2 * 2 powr of_int k"
    unfolding e(5) powr_add one by (rule refl)
qed

lemma f64_scaled_int:
  assumes n: "2 ^ 52 \<le> n" "n \<le> 2 ^ 53"
  shows "f64 (of_int n * 2 powr of_int k) = of_int n * 2 powr of_int k"
proof -
  let ?p = "(2 :: real) powr of_int k"
  let ?y = "of_int n * ?p"
  have p: "0 < ?p" by simp
  have lo: "(2 :: real) ^ 52 \<le> of_int n"
    using n(1) by (metis of_int_le_iff of_int_numeral of_int_power)
  have hi: "of_int n \<le> (2 :: real) ^ 53"
    using n(2) by (metis of_int_le_iff of_int_numeral of_int_power)
  have npos: "(0 :: real) < of_int n"
    by (rule less_le_trans [OF _ lo]) simp
  have ypos: "0 < ?y" by (rule mult_pos_pos [OF npos p])
  have y: "?y \<noteq> 0" "\<bar>?y\<bar> = ?y"
    using ypos by (linarith, rule abs_of_pos)
  show ?thesis
  proof (cases "n = 2 ^ 53")
    case False
    with n(2) have "n < 2 ^ 53" by simp
    then have hi': "of_int n < (2 :: real) ^ 53"
      by (metis of_int_less_iff of_int_numeral of_int_power)
    have l: "2 powr of_int (k + 52) \<le> \<bar>?y\<bar>"
      unfolding y(2) powr_split by (rule mult_right_mono [OF lo less_imp_le [OF p]])
    have h: "\<bar>?y\<bar> < 2 powr (of_int (k + 52) + 1)"
      unfolding y(2) powr_split by (rule mult_strict_right_mono [OF hi' p])
    have "ulp ?y = 2 powr (of_int (k + 52) - 52)"
      by (rule ulp_eq [OF y(1) l h])
    then have u: "ulp ?y = ?p" by simp
    have q: "?y / ?p = of_int n" using p by simp
    show ?thesis
      unfolding f64_def u q rne_of_int using y(1) by (simp only: if_False)
  next
    case True
    have nn: "(of_int n :: real) = 2 ^ 53"
      unfolding True by (simp only: of_int_power of_int_numeral)
    have l: "2 powr of_int (k + 53) \<le> \<bar>?y\<bar>"
      unfolding y(2) unfolding powr_split nn by (rule order_refl)
    have h: "\<bar>?y\<bar> < 2 powr (of_int (k + 53) + 1)"
      unfolding y(2) unfolding powr_split nn using p by simp
    have "ulp ?y = 2 powr (of_int (k + 53) - 52)"
      by (rule ulp_eq [OF y(1) l h])
    then have u: "ulp ?y = 2 * ?p" unfolding powr_split .
    have "?y / (2 * ?p) = 2 ^ 53 / 2"
      unfolding nn using p by (simp del: power_numeral)
    also have "\<dots> = (2 :: real) ^ 52" by simp
    also have "\<dots> = of_int (2 ^ 52)" by (simp only: of_int_power of_int_numeral)
    finally have q: "?y / (2 * ?p) = of_int (2 ^ 52)" .
    have "f64 ?y = of_int (2 ^ 52) * (2 * ?p)"
      unfolding f64_def u q rne_of_int using y(1) by (simp only: if_False)
    also have "\<dots> = 2 ^ 53 * ?p" by simp
    finally show ?thesis unfolding nn .
  qed
qed

lemma f64_idem_pos:
  assumes "0 < x"
  shows "f64 (f64 x) = f64 x"
proof -
  have x: "x \<noteq> 0" using assms by simp
  have "f64 x = of_int (rne (x / ulp x)) * 2 powr of_int (\<lfloor>log 2 \<bar>x\<bar>\<rfloor> - 52)"
    using x by (simp add: f64_def ulp_def)
  moreover have "f64 (of_int (rne (x / ulp x)) * 2 powr of_int (\<lfloor>log 2 \<bar>x\<bar>\<rfloor> - 52))
      = of_int (rne (x / ulp x)) * 2 powr of_int (\<lfloor>log 2 \<bar>x\<bar>\<rfloor> - 52)"
    by (rule f64_scaled_int [OF rne_scaled_bounds [OF assms]])
  ultimately show ?thesis by simp
qed

lemma f64_idem [simp]: "f64 (f64 x) = f64 x"
proof (cases "0 < x")
  case True
  then show ?thesis by (rule f64_idem_pos)
next
  case False
  show ?thesis
  proof (cases "x = 0")
    case True
    then show ?thesis by simp
  next
    case nz: False
    with False have "0 < - x" by simp
    from f64_idem_pos [OF this] show ?thesis
      by (simp add: f64_minus)
  qed
qed

lemma ulp_double: "x \<noteq> 0 \<Longrightarrow> ulp (2 * x) = 2 * ulp x"
proof -
  assume x: "x \<noteq> 0"
  have "log 2 \<bar>2 * x\<bar> = log 2 \<bar>x\<bar> + 1"
    using x by (simp add: abs_mult log_mult)
  then have "\<lfloor>log 2 \<bar>2 * x\<bar>\<rfloor> = \<lfloor>log 2 \<bar>x\<bar>\<rfloor> + 1" by simp
  then have "ulp (2 * x) = 2 powr (of_int \<lfloor>log 2 \<bar>x\<bar>\<rfloor> - 52 + 1)"
    by (simp add: ulp_def)
  also have "\<dots> = 2 * ulp x"
    by (simp only: powr_add ulp_def) simp
  finally show ?thesis .
qed

lemma f64_double: "f64 (2 * x) = 2 * f64 x"
proof (cases "x = 0")
  case True
  then show ?thesis by simp
next
  case False
  then show ?thesis
    by (simp add: f64_def ulp_double)
qed

lemma f64_half: "f64 (x / 2) = f64 x / 2"
  using f64_double [of "x / 2"] by simp

lemma f64_mono_pos:
  assumes "0 < x" "x \<le> y"
  shows "f64 x \<le> f64 y"
proof -
  have y: "0 < y" using assms by simp
  have le: "\<lfloor>log 2 x\<rfloor> \<le> \<lfloor>log 2 y\<rfloor>"
    using assms by (intro floor_mono) simp
  show ?thesis
  proof (cases "\<lfloor>log 2 x\<rfloor> = \<lfloor>log 2 y\<rfloor>")
    case True
    have ax: "\<bar>x\<bar> = x" and ay: "\<bar>y\<bar> = y" using assms y by simp_all
    have u: "ulp y = ulp x" by (simp add: ulp_def ax ay True)
    have "x / ulp x \<le> y / ulp x"
      by (rule divide_right_mono [OF assms(2)]) (rule less_imp_le [OF ulp_pos])
    then have "rne (x / ulp x) \<le> rne (y / ulp x)" by (rule rne_mono)
    then have "(of_int (rne (x / ulp x)) :: real) \<le> of_int (rne (y / ulp x))"
      by (simp only: of_int_le_iff)
    then have "of_int (rne (x / ulp x)) * ulp x \<le> of_int (rne (y / ulp x)) * ulp x"
      by (rule mult_right_mono) (rule less_imp_le [OF ulp_pos])
    then show ?thesis
      using assms(1) y by (simp add: f64_def u)
  next
    case False
    with le have lt: "\<lfloor>log 2 x\<rfloor> + 1 \<le> \<lfloor>log 2 y\<rfloor>" by simp
    have "f64 x \<le> 2 powr (of_int \<lfloor>log 2 x\<rfloor> + 1)"
      by (rule f64_pos_bounds(2) [OF assms(1)])
    also have "\<dots> \<le> 2 powr of_int \<lfloor>log 2 y\<rfloor>"
    proof -
      have "(of_int \<lfloor>log 2 x\<rfloor> + 1 :: real) \<le> of_int \<lfloor>log 2 y\<rfloor>"
        using lt by (metis of_int_1 of_int_add of_int_le_iff)
      then show ?thesis by simp
    qed
    also have "\<dots> \<le> f64 y" by (rule f64_pos_bounds(1) [OF y])
    finally show ?thesis .
  qed
qed

lemma f64_mono:
  assumes "x \<le> y"
  shows "f64 x \<le> f64 y"
proof (cases "0 < x")
  case True
  then show ?thesis using assms by (rule f64_mono_pos)
next
  case x: False
  show ?thesis
  proof (cases "0 \<le> y")
    case True
    have "f64 x \<le> 0" using x by (intro f64_nonpos) simp
    also have "0 \<le> f64 y" using True by (rule f64_nonneg)
    finally show ?thesis .
  next
    case False
    then have "0 < - y" "- y \<le> - x" using assms by simp_all
    from f64_mono_pos [OF this] show ?thesis by (simp add: f64_minus)
  qed
qed

lemma f64_eval:
  fixes k :: nat
  assumes "2 ^ 52 \<le> \<bar>x\<bar> * 2 ^ k" "\<bar>x\<bar> * 2 ^ k < 2 ^ 53"
  shows "f64 x = of_int (rne (x * 2 ^ k)) / 2 ^ k"
proof -
  have a: "(2 :: real) ^ 52 = 2 powr 52" and b: "(2 :: real) ^ 53 = 2 powr 53"
    by (simp_all only: powr_numeral zero_less_numeral)
  have pk: "(2 :: real) ^ k = 2 powr of_nat k" by (simp add: powr_realpow)
  have x: "x \<noteq> 0"
  proof
    assume "x = 0"
    with assms(1) show False by simp
  qed
  have "2 powr 52 / 2 powr of_nat k \<le> \<bar>x\<bar>"
    using assms(1) unfolding a pk by (simp add: pos_divide_le_eq)
  then have l: "2 powr of_int (52 - int k) \<le> \<bar>x\<bar>"
    by (simp add: powr_diff)
  have p: "0 < (2 :: real) powr of_nat k" by simp
  have e: "real_of_int (52 - int k) + 1 = 53 - real k" by simp
  from assms(2) have "\<bar>x\<bar> * 2 powr of_nat k < 2 powr 53" unfolding b pk .
  then have "\<bar>x\<bar> < 2 powr 53 / 2 powr of_nat k"
    by (simp only: pos_less_divide_eq [OF p])
  then have h: "\<bar>x\<bar> < 2 powr (of_int (52 - int k) + 1)"
    unfolding e powr_diff .
  have "ulp x = 2 powr (- of_nat k)"
    using ulp_eq [OF x l h] by simp
  then have u: "ulp x = 1 / 2 ^ k"
    by (simp add: powr_minus pk inverse_eq_divide)
  show ?thesis
    unfolding f64_def u using x by simp
qed

subsection \<open>Rounding errors and the values the schedule needs\<close>

lemma rne_error: "\<bar>of_int (rne y) - y\<bar> \<le> 1 / 2"
  using rne_cases [of y] by (auto simp: abs_le_iff)

lemma f64_error: "\<bar>f64 x - x\<bar> \<le> \<bar>x\<bar> / 2 ^ 53"
proof (cases "x = 0")
  case True
  then show ?thesis by simp
next
  case False
  let ?u = "ulp x"
  have u: "0 < ?u" by simp
  have un: "?u \<noteq> 0" using ulp_pos [of x] by linarith
  have "f64 x - x = (of_int (rne (x / ?u)) - x / ?u) * ?u"
    using False un by (simp add: f64_def algebra_simps)
  then have "\<bar>f64 x - x\<bar> = \<bar>of_int (rne (x / ?u)) - x / ?u\<bar> * ?u"
    using u by (simp only: abs_mult abs_of_pos)
  also have "\<dots> \<le> 1 / 2 * ?u"
    by (rule mult_right_mono [OF rne_error less_imp_le [OF u]])
  finally have a: "\<bar>f64 x - x\<bar> \<le> ?u / 2" by simp
  have "2 ^ 52 * ?u \<le> \<bar>x\<bar>"
    unfolding ulp_times(1) by (rule exponent_bounds(1) [OF False])
  then have "2 ^ 53 * (?u / 2) \<le> \<bar>x\<bar>" by simp
  then have "?u / 2 \<le> \<bar>x\<bar> / 2 ^ 53"
    by (simp only: pos_le_divide_eq zero_less_power zero_less_numeral mult.commute)
  with a show ?thesis by (rule order_trans)
qed

lemma f64_tenth: "f64 (1 / 10) = 3602879701896397 / 2 ^ 55"
proof -
  have "f64 (1 / 10) = of_int (rne (1 / 10 * 2 ^ 56)) / 2 ^ 56"
    by (rule f64_eval) simp_all
  also have "rne (1 / 10 * 2 ^ 56) = 7205759403792794"
    by (simp add: rne_def Let_def)
  finally show ?thesis by simp
qed

lemma f64_one [simp]: "f64 1 = 1"
proof -
  have "f64 1 = of_int (rne (1 * 2 ^ 52)) / 2 ^ 52"
    by (rule f64_eval) simp_all
  also have "rne (1 * 2 ^ 52) = 2 ^ 52"
    by (simp add: rne_def Let_def)
  finally show ?thesis by simp
qed

lemma f64_two [simp]: "f64 2 = 2"
  using f64_double [of 1] by simp

lemma f64_three [simp]: "f64 3 = 3"
proof -
  have "f64 3 = of_int (rne (3 * 2 ^ 51)) / 2 ^ 51"
    by (rule f64_eval) simp_all
  also have "rne (3 * 2 ^ 51) = 3 * 2 ^ 51"
    by (simp add: rne_def Let_def)
  finally show ?thesis by simp
qed

lemma np_pi_pos: "0 < np_pi"
  by (simp add: np_pi_def)

lemma f64_np_pi [simp]: "f64 np_pi = np_pi"
proof -
  have "f64 np_pi = of_int (rne (np_pi * 2 ^ 51)) / 2 ^ 51"
    by (rule f64_eval) (simp_all add: np_pi_def)
  also have "rne (np_pi * 2 ^ 51) = 7074237752028440"
    by (simp add: rne_def Let_def np_pi_def)
  finally show ?thesis by (simp add: np_pi_def)
qed

lemma f64_times_half: "f64 (x * 0.5) = f64 x / 2"
proof -
  have "x * 0.5 = x / 2" by simp
  then show ?thesis by (simp only: f64_half)
qed

lemma f64_thousandth: "f64 (1 / 1000) = 1152921504606847 / 2 ^ 60"
proof -
  have "f64 (1 / 1000) = of_int (rne (1 / 1000 * 2 ^ 62)) / 2 ^ 62"
    by (rule f64_eval) simp_all
  also have "rne (1 / 1000 * 2 ^ 62) = 4611686018427388"
    by (simp add: rne_def Let_def)
  finally show ?thesis by simp
qed

lemma f64_hundredth: "f64 (1 / 100) = 5764607523034235 / 2 ^ 59"
proof -
  have "f64 (1 / 100) = of_int (rne (1 / 100 * 2 ^ 59)) / 2 ^ 59"
    by (rule f64_eval) simp_all
  also have "rne (1 / 100 * 2 ^ 59) = 5764607523034235"
    by (simp add: rne_def Let_def)
  finally show ?thesis by simp
qed

lemma first_step_tenth:
  "f64 (f64 (1 / 1000) + f64 (f64 (1 / 10) - f64 (1 / 1000))) = f64 (1 / 10)"
proof -
  let ?D = "3602879701896397 / 2 ^ 55 - 1152921504606847 / 2 ^ 60 :: real"
  have "f64 ?D = of_int (rne (?D * 2 ^ 56)) / 2 ^ 56"
    by (rule f64_eval) simp_all
  also have "rne (?D * 2 ^ 56) = 7133701809754866"
    by (simp add: rne_def Let_def)
  finally have d: "f64 ?D = 7133701809754866 / 2 ^ 56" by simp
  let ?S = "1152921504606847 / 2 ^ 60 + 7133701809754866 / 2 ^ 56 :: real"
  have "f64 ?S = of_int (rne (?S * 2 ^ 56)) / 2 ^ 56"
    by (rule f64_eval) simp_all
  also have "rne (?S * 2 ^ 56) = 7205759403792794"
    by (simp add: rne_def Let_def)
  finally have s: "f64 ?S = 3602879701896397 / 2 ^ 55" by simp
  show ?thesis
    unfolding f64_tenth f64_thousandth d s by (rule refl)
qed

lemma first_step_hundredth:
  "f64 (f64 (1 / 1000) + f64 (f64 (1 / 100) - f64 (1 / 1000))) = 1441151880758559 / 2 ^ 57"
proof -
  let ?D = "5764607523034235 / 2 ^ 59 - 1152921504606847 / 2 ^ 60 :: real"
  have "f64 ?D = of_int (rne (?D * 2 ^ 59)) / 2 ^ 59"
    by (rule f64_eval) simp_all
  also have "rne (?D * 2 ^ 59) = 5188146770730812"
    by (simp add: rne_def Let_def)
  finally have d: "f64 ?D = 5188146770730812 / 2 ^ 59" by simp
  let ?S = "1152921504606847 / 2 ^ 60 + 5188146770730812 / 2 ^ 59 :: real"
  have "f64 ?S = of_int (rne (?S * 2 ^ 59)) / 2 ^ 59"
    by (rule f64_eval) simp_all
  also have "rne (?S * 2 ^ 59) = 5764607523034236"
    by (simp add: rne_def Let_def)
  finally have s: "f64 ?S = 1441151880758559 / 2 ^ 57" by simp
  show ?thesis
    unfolding f64_hundredth f64_thousandth d s by (rule refl)
qed

lemma get_lr_f64_first:
  assumes "T \<noteq> 0" "np_cos 0 = 1"
  shows "get_lr_f64 np_cos 0 T lr_max lr_min = Inr (f64 (lr_min + f64 (lr_max - lr_min)))"
proof -
  let ?d = "f64 (lr_max - lr_min)"
  have h: "f64 (?d * 0.5) = ?d / 2"
    by (simp only: f64_times_half f64_idem)
  have "f64 (?d / 2 * f64 (1 + 1)) = f64 ?d" by simp
  then have p: "f64 (f64 (?d * 0.5) * f64 (1 + 1)) = ?d"
    by (simp only: h f64_idem)
  have a: "f64 (f64 (of_int 0 / of_int T) * np_pi) = 0" by simp
  show ?thesis
    unfolding get_lr_f64_def a assms(2) p using assms(1) by simp
qed

lemma get_lr_f64_last:
  assumes "T \<noteq> 0" "np_cos np_pi = - 1" "f64 lr_min = lr_min"
  shows "get_lr_f64 np_cos T T lr_max lr_min = Inr lr_min"
proof -
  have a: "f64 (f64 (of_int T / of_int T) * np_pi) = np_pi"
    using assms(1) by simp
  show ?thesis
    unfolding get_lr_f64_def a assms(2) using assms(1, 3) by simp
qed

lemma two_roundings:
  fixes A B C E F G :: real
  assumes "A \<le> B / 2 ^ 53" "C \<le> E / 2 ^ 53" "G \<le> C + A" "E \<le> F + A" "0 \<le> B" "0 \<le> F"
  shows "G \<le> (B + F) / 2 ^ 52"
  using assms by simp

lemma first_step_error:
  "\<bar>f64 (lr_min + f64 (lr_max - lr_min)) - lr_max\<bar>
     \<le> (\<bar>lr_max - lr_min\<bar> + \<bar>lr_max\<bar>) / 2 ^ 52"
proof -
  define D where "D = lr_max - lr_min"
  define d where "d = f64 D"
  define s where "s = lr_min + d"
  define r where "r = f64 s"
  have a: "\<bar>d - D\<bar> \<le> \<bar>D\<bar> / 2 ^ 53"
    unfolding d_def by (rule f64_error)
  have b: "\<bar>r - s\<bar> \<le> \<bar>s\<bar> / 2 ^ 53"
    unfolding r_def by (rule f64_error)
  have s: "s = lr_max + (d - D)" by (simp add: s_def D_def)
  have t1: "\<bar>r - lr_max\<bar> \<le> \<bar>r - s\<bar> + \<bar>d - D\<bar>"
    unfolding s by linarith
  have t2: "\<bar>s\<bar> \<le> \<bar>lr_max\<bar> + \<bar>d - D\<bar>"
    unfolding s by linarith
  have "\<bar>r - lr_max\<bar> \<le> (\<bar>D\<bar> + \<bar>lr_max\<bar>) / 2 ^ 52"
    by (rule two_roundings [OF a b t1 t2]) simp_all
  then show ?thesis
    by (simp only: r_def s_def d_def D_def)
qed

lemma get_lr_f64_antimono:
  assumes T: "0 < T"
    and cm: "\<And>a b. f64 a = a \<Longrightarrow> f64 b = b \<Longrightarrow> 0 \<le> a \<Longrightarrow> a \<le> b \<Longrightarrow> b \<le> np_pi
               \<Longrightarrow> np_cos b \<le> np_cos a"
    and le: "lr_min \<le> lr_max"
    and s: "0 \<le> s1" "s1 \<le> s2" "s2 \<le> T"
  shows "\<exists>a b. get_lr_f64 np_cos s1 T lr_max lr_min = Inr a
           \<and> get_lr_f64 np_cos s2 T lr_max lr_min = Inr b \<and> b \<le> a"
proof -
  define q where "q s = f64 (real_of_int s / of_int T)" for s
  define a where "a s = f64 (q s * np_pi)" for s
  define h where "h = f64 (f64 (lr_max - lr_min) * 0.5)"
  have Tr: "(0 :: real) < of_int T" using T by simp
  have "real_of_int s1 / of_int T \<le> of_int s2 / of_int T"
    using s(2) Tr by (simp add: divide_right_mono)
  then have q12: "q s1 \<le> q s2" unfolding q_def by (rule f64_mono)
  have "0 \<le> real_of_int s1 / of_int T" using s(1) Tr by simp
  then have q0: "0 \<le> q s1" unfolding q_def by (rule f64_nonneg)
  have "real_of_int s2 / of_int T \<le> 1" using s(3) Tr by simp
  then have "q s2 \<le> f64 1" unfolding q_def by (rule f64_mono)
  then have q1: "q s2 \<le> 1" by simp
  have "q s1 * np_pi \<le> q s2 * np_pi"
    by (rule mult_right_mono [OF q12 less_imp_le [OF np_pi_pos]])
  then have a12: "a s1 \<le> a s2" unfolding a_def by (rule f64_mono)
  have "0 \<le> q s1 * np_pi"
    by (rule mult_nonneg_nonneg [OF q0 less_imp_le [OF np_pi_pos]])
  then have a0: "0 \<le> a s1" unfolding a_def by (rule f64_nonneg)
  have "q s2 * np_pi \<le> 1 * np_pi"
    by (rule mult_right_mono [OF q1 less_imp_le [OF np_pi_pos]])
  then have "a s2 \<le> f64 (1 * np_pi)" unfolding a_def by (rule f64_mono)
  then have a1: "a s2 \<le> np_pi" by simp
  have fa: "f64 (a s1) = a s1" "f64 (a s2) = a s2"
    by (simp_all only: a_def f64_idem)
  have c: "np_cos (a s2) \<le> np_cos (a s1)"
    by (rule cm [OF fa a0 a12 a1])
  then have "1 + np_cos (a s2) \<le> 1 + np_cos (a s1)" by simp
  then have e: "f64 (1 + np_cos (a s2)) \<le> f64 (1 + np_cos (a s1))"
    by (rule f64_mono)
  have "0 \<le> f64 (lr_max - lr_min)" using le by (intro f64_nonneg) simp
  then have "0 \<le> f64 (lr_max - lr_min) * 0.5" by simp
  then have h0: "0 \<le> h" unfolding h_def by (rule f64_nonneg)
  have "h * f64 (1 + np_cos (a s2)) \<le> h * f64 (1 + np_cos (a s1))"
    by (rule mult_left_mono [OF e h0])
  then have "f64 (h * f64 (1 + np_cos (a s2))) \<le> f64 (h * f64 (1 + np_cos (a s1)))"
    by (rule f64_mono)
  then have "lr_min + f64 (h * f64 (1 + np_cos (a s2)))
      \<le> lr_min + f64 (h * f64 (1 + np_cos (a s1)))" by simp
  then have "f64 (lr_min + f64 (h * f64 (1 + np_cos (a s2))))
      \<le> f64 (lr_min + f64 (h * f64 (1 + np_cos (a s1))))"
    by (rule f64_mono)
  then show ?thesis
    using T unfolding get_lr_f64_def h_def a_def q_def by simp
qed

subsection \<open>The ends and the monotonicity of the schedule\<close>

text \<open>
  C4, as the claim states it, fails twice. It asks that step 0 return \<open>lr_max\<close>
  exactly: in binary64, with \<open>lr_max = 0.01\<close>, \<open>lr_min = 0.001\<close> and 1000 total steps,
  \<open>lr_max - lr_min\<close> is rounded, and adding \<open>lr_min\<close> back gives
  \<open>1441151880758559 / 2^57 = 0.010000000000000002\<close>, the binary64 number after
  \<open>0.01 = 5764607523034235 / 2^59\<close>; only \<open>cos 0 = 1\<close> is used of the cosine. It also
  asks for a schedule that never increases for every \<open>lr_max\<close> and \<open>lr_min\<close>: with
  \<open>lr_max = 0 < lr_min = 1\<close> and one total step the rate rises from 0 at step 0 to 1
  at step 1.
\<close>

theorem get_lr_exactly_counterexample:
  "get_lr_f64 (\<lambda>x. f64 (cos x)) 0 1000 (f64 (1 / 100)) (f64 (1 / 1000))
     = Inr (1441151880758559 / 2 ^ 57)
   \<and> f64 (1 / 100) = 5764607523034235 / 2 ^ 59
   \<and> (5764607523034235 / 2 ^ 59 :: real) < 1441151880758559 / 2 ^ 57
   \<and> get_lr 0 1 0 1 = Inr 0 \<and> get_lr 1 1 0 1 = Inr 1 \<and> \<not> ((1 :: real) \<le> 0)"
proof -
  have n: "(1000 :: int) \<noteq> 0" by simp
  have c: "(\<lambda>x. f64 (cos x)) 0 = 1" by simp
  have a: "get_lr_f64 (\<lambda>x. f64 (cos x)) 0 1000 (f64 (1 / 100)) (f64 (1 / 1000))
      = Inr (1441151880758559 / 2 ^ 57)"
    by (simp only: get_lr_f64_first [where np_cos = "\<lambda>x. f64 (cos x)", OF n c] first_step_hundredth)
  have b: "(5764607523034235 / 2 ^ 59 :: real) < 1441151880758559 / 2 ^ 57" by simp
  have r: "get_lr 0 1 0 1 = Inr 0 \<and> get_lr 1 1 0 1 = Inr 1 \<and> \<not> ((1 :: real) \<le> 0)"
    by (simp add: get_lr_def)
  from a f64_hundredth b r show ?thesis by blast
qed

text \<open>
  C4, amended. Let \<open>0 < T\<close>, let \<open>lr_max\<close> and \<open>lr_min\<close> be binary64 numbers in range,
  and let the cosine routine return binary64 numbers of \<open>[-1, 1]\<close>, 1 at 0 and -1 at
  \<open>np.pi\<close>, and never increase between two binary64 arguments of \<open>[0, np.pi]\<close>. Then in
  binary64 \<open>get_lr\<close> returns \<open>lr_min\<close> exactly at step \<open>T\<close>; at step 0 it returns
  \<open>lr_min + (lr_max - lr_min)\<close> with its two roundings, which is within
  \<open>(\<bar>lr_max - lr_min\<bar> + \<bar>lr_max\<bar>) / 2^52\<close> of \<open>lr_max\<close>; when \<open>lr_min \<le> lr_max\<close> it never
  increases between two steps of \<open>[0, T]\<close>; and at \<open>T = 100\<close>, \<open>lr_max = 0.1\<close>,
  \<open>lr_min = 0.001\<close> the two ends are exactly 0.1 and 0.001. In exact arithmetic the two
  ends are \<open>lr_max\<close> and \<open>lr_min\<close> and, when \<open>lr_min \<le> lr_max\<close>, the rate never increases
  on the real interval \<open>[0, T]\<close>.
\<close>

theorem get_lr_binary64_ends_and_monotone:
  fixes np_cos :: "real \<Rightarrow> real" and T :: int and lr_max lr_min :: real
  assumes T: "0 < T" "T \<le> 2 ^ 900"
    and c0: "np_cos 0 = 1"
    and cpi: "np_cos np_pi = - 1"
    and crange: "\<forall>x. f64 x = x \<longrightarrow> f64 (np_cos x) = np_cos x \<and> \<bar>np_cos x\<bar> \<le> 1"
    and cmono: "\<forall>a b. f64 a = a \<and> f64 b = b \<and> 0 \<le> a \<and> a \<le> b \<and> b \<le> np_pi
                  \<longrightarrow> np_cos b \<le> np_cos a"
    and fl: "f64 lr_max = lr_max" "f64 lr_min = lr_min"
    and rg: "in_range lr_max" "in_range lr_min"
  shows "get_lr_f64 np_cos T T lr_max lr_min = Inr lr_min
     \<and> (\<exists>r. get_lr_f64 np_cos 0 T lr_max lr_min = Inr r
            \<and> r = f64 (lr_min + f64 (lr_max - lr_min))
            \<and> \<bar>r - lr_max\<bar> \<le> (\<bar>lr_max - lr_min\<bar> + \<bar>lr_max\<bar>) / 2 ^ 52)
     \<and> (lr_min \<le> lr_max \<longrightarrow>
          (\<forall>s1 s2. 0 \<le> s1 \<and> s1 \<le> s2 \<and> s2 \<le> T \<longrightarrow>
             (\<exists>a b. get_lr_f64 np_cos s1 T lr_max lr_min = Inr a
                  \<and> get_lr_f64 np_cos s2 T lr_max lr_min = Inr b \<and> b \<le> a)))
     \<and> get_lr_f64 np_cos 0 100 (f64 (1 / 10)) (f64 (1 / 1000)) = Inr (f64 (1 / 10))
     \<and> get_lr_f64 np_cos 100 100 (f64 (1 / 10)) (f64 (1 / 1000)) = Inr (f64 (1 / 1000))
     \<and> get_lr 0 (of_int T) lr_max lr_min = Inr lr_max
     \<and> get_lr (of_int T) (of_int T) lr_max lr_min = Inr lr_min
     \<and> (lr_min \<le> lr_max \<longrightarrow>
          (\<forall>s1 s2. 0 \<le> s1 \<and> s1 \<le> s2 \<and> s2 \<le> of_int T \<longrightarrow>
             (\<exists>a b. get_lr s1 (of_int T) lr_max lr_min = Inr a
                  \<and> get_lr s2 (of_int T) lr_max lr_min = Inr b \<and> b \<le> a)))"
proof -
  have T0: "T \<noteq> 0" using T(1) by simp
  have Tr: "(0 :: real) < of_int T" using T(1) by simp
  have Tr0: "real_of_int T \<noteq> 0" using T(1) by simp
  have h: "(100 :: int) \<noteq> 0" by simp
  have last: "get_lr_f64 np_cos T T lr_max lr_min = Inr lr_min"
    by (rule get_lr_f64_last [where np_cos = np_cos, OF T0 cpi fl(2)])
  have first: "\<exists>r. get_lr_f64 np_cos 0 T lr_max lr_min = Inr r
      \<and> r = f64 (lr_min + f64 (lr_max - lr_min))
      \<and> \<bar>r - lr_max\<bar> \<le> (\<bar>lr_max - lr_min\<bar> + \<bar>lr_max\<bar>) / 2 ^ 52"
    by (intro exI conjI) (rule get_lr_f64_first [where np_cos = np_cos, OF T0 c0], rule refl, rule first_step_error)
  have cm: "np_cos b \<le> np_cos a"
    if "f64 a = a" "f64 b = b" "0 \<le> a" "a \<le> b" "b \<le> np_pi" for a b
    using cmono that by blast
  have mono: "\<exists>a b. get_lr_f64 np_cos s1 T lr_max lr_min = Inr a
      \<and> get_lr_f64 np_cos s2 T lr_max lr_min = Inr b \<and> b \<le> a"
    if "lr_min \<le> lr_max" "0 \<le> s1" "s1 \<le> s2" "s2 \<le> T" for s1 s2
    by (rule get_lr_f64_antimono [where np_cos = np_cos, OF T(1) cm that])
  have x0: "get_lr_f64 np_cos 0 100 (f64 (1 / 10)) (f64 (1 / 1000)) = Inr (f64 (1 / 10))"
    by (simp only: get_lr_f64_first [where np_cos = np_cos, OF h c0] first_step_tenth)
  have x1: "get_lr_f64 np_cos 100 100 (f64 (1 / 10)) (f64 (1 / 1000)) = Inr (f64 (1 / 1000))"
    by (rule get_lr_f64_last [where np_cos = np_cos, OF h cpi f64_idem])
  have e0: "get_lr 0 (of_int T) lr_max lr_min = Inr lr_max"
    using Tr0 by (simp add: get_lr_def field_simps)
  have eT: "get_lr (of_int T) (of_int T) lr_max lr_min = Inr lr_min"
    using Tr0 by (simp add: get_lr_def)
  have rmono: "\<exists>a b. get_lr s1 (of_int T) lr_max lr_min = Inr a
      \<and> get_lr s2 (of_int T) lr_max lr_min = Inr b \<and> b \<le> a"
    if "lr_min \<le> lr_max" "0 \<le> s1" "s1 \<le> s2" "s2 \<le> of_int T" for s1 s2
    using get_lr_antimono [OF Tr that] by (simp add: get_lr_value [OF Tr0])
  from last first mono x0 x1 e0 eT rmono show ?thesis by blast
qed

text \<open>
  The hypotheses hold together: three steps from 3 down to 1, with the correctly rounded
  cosine of an argument counted in units of \<open>np.pi\<close>.
\<close>

theorem get_lr_binary64_ends_and_monotone_witness:
  "(0 :: int) < 2 \<and> (2 :: int) \<le> 2 ^ 900
   \<and> f64 3 = 3 \<and> f64 1 = 1 \<and> in_range 3 \<and> in_range 1
   \<and> get_lr_f64 (\<lambda>x. f64 (cos (x * pi / np_pi))) 0 2 3 1 = Inr 3
   \<and> get_lr_f64 (\<lambda>x. f64 (cos (x * pi / np_pi))) 1 2 3 1 = Inr 2
   \<and> get_lr_f64 (\<lambda>x. f64 (cos (x * pi / np_pi))) 2 2 3 1 = Inr 1
   \<and> (\<exists>a b. get_lr_f64 (\<lambda>x. f64 (cos (x * pi / np_pi))) 1 2 3 1 = Inr a
          \<and> get_lr_f64 (\<lambda>x. f64 (cos (x * pi / np_pi))) 2 2 3 1 = Inr b \<and> b \<le> a)"
proof -
  define C where "C = (\<lambda>x. f64 (cos (x * pi / np_pi)))"
  have p: "np_pi \<noteq> 0" using np_pi_pos by simp
  have T: "(0 :: int) < 2" "(2 :: int) \<le> 2 ^ 900" by simp_all
  have c0: "C 0 = 1" by (simp add: C_def)
  have cpi: "C np_pi = - 1" using p by (simp add: C_def f64_minus)
  have crange: "\<forall>x. f64 x = x \<longrightarrow> f64 (C x) = C x \<and> \<bar>C x\<bar> \<le> 1"
  proof (intro allI impI conjI)
    fix x
    show "f64 (C x) = C x" by (simp add: C_def)
    have "f64 (- 1) \<le> C x" unfolding C_def by (rule f64_mono) simp
    moreover have "C x \<le> f64 1" unfolding C_def by (rule f64_mono) simp
    ultimately show "\<bar>C x\<bar> \<le> 1" by (simp add: f64_minus abs_le_iff)
  qed
  have cmono: "\<forall>a b. f64 a = a \<and> f64 b = b \<and> 0 \<le> a \<and> a \<le> b \<and> b \<le> np_pi
      \<longrightarrow> C b \<le> C a"
  proof (intro allI impI)
    fix a b
    assume h: "f64 a = a \<and> f64 b = b \<and> 0 \<le> a \<and> a \<le> b \<and> b \<le> np_pi"
    have q: "0 < pi / np_pi" using np_pi_pos by simp
    have 1: "0 \<le> a * pi / np_pi" using h np_pi_pos by simp
    have 2: "a * pi / np_pi \<le> b * pi / np_pi"
      using h np_pi_pos by (simp add: divide_right_mono mult_right_mono)
    have "b * pi \<le> np_pi * pi" using h by (intro mult_right_mono) simp_all
    then have "b * pi / np_pi \<le> np_pi * pi / np_pi"
      by (rule divide_right_mono) (rule less_imp_le [OF np_pi_pos])
    then have 3: "b * pi / np_pi \<le> pi" using p by simp
    show "C b \<le> C a"
      unfolding C_def by (rule f64_mono) (rule cos_monotone_0_pi_le [OF 1 2 3])
  qed
  have fl: "f64 3 = 3" "f64 1 = 1" by simp_all
  have rg: "in_range 3" "in_range 1" by (simp_all add: in_range_def)
  have half: "f64 (f64 (of_int 1 / of_int 2) * np_pi) = np_pi / 2"
    by (simp add: f64_half)
  have "C (np_pi / 2) = 0" using p by (simp add: C_def)
  then have mid: "get_lr_f64 C 1 2 3 1 = Inr 2"
    unfolding get_lr_f64_def half by (simp add: f64_times_half)
  from get_lr_binary64_ends_and_monotone [where np_cos = C, OF T c0 cpi crange cmono fl rg]
  have eT: "get_lr_f64 C 2 2 3 1 = Inr 1"
    and e0: "\<exists>r. get_lr_f64 C 0 2 3 1 = Inr r \<and> r = f64 (1 + f64 (3 - 1))
        \<and> \<bar>r - 3\<bar> \<le> (\<bar>3 - 1\<bar> + \<bar>3\<bar>) / 2 ^ 52"
    and m: "(1 :: real) \<le> 3 \<longrightarrow>
          (\<forall>s1 s2. 0 \<le> s1 \<and> s1 \<le> s2 \<and> s2 \<le> 2 \<longrightarrow>
             (\<exists>a b. get_lr_f64 C s1 2 3 1 = Inr a \<and> get_lr_f64 C s2 2 3 1 = Inr b \<and> b \<le> a))"
    by blast+
  from e0 have e0': "get_lr_f64 C 0 2 3 1 = Inr 3" by simp
  from m have "\<exists>a b. get_lr_f64 C 1 2 3 1 = Inr a \<and> get_lr_f64 C 2 2 3 1 = Inr b \<and> b \<le> a"
    by simp
  with T fl rg e0' mid eT show ?thesis unfolding C_def by blast
qed

section \<open>Properties of the targets\<close>

lemma slice_add_length [simp]: "length (slice_add start step d xs) = length xs"
  by (simp add: slice_add_def)

lemma slice_add_nth:
  "i < length xs \<Longrightarrow>
   slice_add start step d xs ! i =
     (if start \<le> i \<and> (i - start) mod step = 0 then xs ! i + d else xs ! i)"
  by (simp add: slice_add_def)

lemma targets_length [simp]: "length (targets n) = n"
  by (simp add: targets_def arange_def)

lemma targets_nth:
  "i < n \<Longrightarrow> targets n ! i = (if even i then int i + 1 else int i - 1)"
proof -
  assume i: "i < n"
  have first: "slice_add 0 2 1 (arange n) ! i = (if even i then int i + 1 else int i)"
    using i by (simp add: slice_add_nth arange_def even_iff_mod_2_eq_zero)
  have second: "targets n ! i =
      (if 1 \<le> i \<and> (i - 1) mod 2 = 0 then slice_add 0 2 1 (arange n) ! i - 1
       else slice_add 0 2 1 (arange n) ! i)"
    using i by (simp add: targets_def slice_add_nth arange_def)
  show ?thesis
  proof (cases "even i")
    case True
    then have "\<not> (1 \<le> i \<and> (i - 1) mod 2 = 0)" by presburger
    with True first second show ?thesis by simp
  next
    case False
    then have "1 \<le> i \<and> (i - 1) mod 2 = 0" by presburger
    with False first second show ?thesis by simp
  qed
qed

text \<open>
  C2. For an embedding matrix of \<open>2N\<close> rows, \<open>nt_xent\<close> builds one target per row, and
  for every \<open>k < N\<close> the target of row \<open>2k\<close> is \<open>2k + 1\<close> and the target of row
  \<open>2k + 1\<close> is \<open>2k\<close>.
\<close>

theorem targets_pairing:
  assumes "k < N"
  shows "length (targets (2 * N)) = 2 * N
     \<and> targets (2 * N) ! (2 * k) = int (2 * k + 1)
     \<and> targets (2 * N) ! (2 * k + 1) = int (2 * k)"
proof -
  have a: "2 * k < 2 * N" and b: "2 * k + 1 < 2 * N" using assms by simp_all
  show ?thesis
    using targets_nth [OF a] targets_nth [OF b] by simp
qed

theorem targets_pairing_witness:
  "(1 :: nat) < 2 \<and> targets 4 = [1, 0, 3, 2]
   \<and> targets 4 ! 2 = 3 \<and> targets 4 ! 3 = 2"
proof -
  have h: "(1 :: nat) < 2" by simp
  have v: "targets 4 = [1, 0, 3, 2]"
    by (simp add: targets_def slice_add_def arange_def upt_conv_Cons)
  from targets_pairing [OF h] have "targets (2 * 2) ! (2 * 1) = int (2 * 1 + 1)
     \<and> targets (2 * 2) ! (2 * 1 + 1) = int (2 * 1)" by blast
  then have "targets 4 ! 2 = 3 \<and> targets 4 ! 3 = 2" by simp
  with h v show ?thesis by blast
qed

section \<open>The loss, entry by entry\<close>

text \<open>
  The matrix handed to the cross-entropy has the logit of \<open>(i, j)\<close> at row \<open>i\<close>, column
  \<open>j\<close>; with an even, positive number of rows every target is in range and the loss
  is the mean of the row losses.
\<close>

lemma x_scale_eq:
  "mat_sub (div_scalar (clamp_min (matmul_T (normalize x) (normalize x)) (1 / 10 ^ 7)) t)
     (mul_scalar (eye (length (div_scalar (clamp_min (matmul_T (normalize x) (normalize x)) (1 / 10 ^ 7)) t))) (10 ^ 5))
   = map (\<lambda>i. map (\<lambda>j. logit x t i j) [0..<length x]) [0..<length x]"
  (is "?L = ?R")
proof (rule nth_equalityI)
  show len: "length ?L = length ?R"
    by (simp add: mat_sub_def div_scalar_def clamp_min_def matmul_T_def normalize_def
        mul_scalar_def eye_def)
  fix i assume "i < length ?L"
  with len have i: "i < length x" by simp
  show "?L ! i = ?R ! i"
  proof (rule nth_equalityI)
    show "length (?L ! i) = length (?R ! i)"
      using i by (simp add: mat_sub_def div_scalar_def clamp_min_def matmul_T_def
          normalize_def mul_scalar_def eye_def)
    fix j assume "j < length (?L ! i)"
    then have j: "j < length x"
      using i by (simp add: mat_sub_def div_scalar_def clamp_min_def matmul_T_def
          normalize_def mul_scalar_def eye_def)
    show "?L ! i ! j = ?R ! i ! j"
      using i j by (simp add: mat_sub_def div_scalar_def clamp_min_def matmul_T_def
          normalize_def mul_scalar_def eye_def logit_def sim_def)
  qed
qed

lemma targets_in_range:
  assumes "even n" "i < n"
  shows "0 \<le> targets n ! i \<and> targets n ! i < int n \<and> nat (targets n ! i) = pair i"
proof (cases "even i")
  case True
  with assms have "i + 1 < n" by presburger
  with True assms show ?thesis by (simp add: targets_nth pair_def)
next
  case False
  then have "0 < i" by presburger
  with False assms show ?thesis by (simp add: targets_nth pair_def nat_diff_distrib')
qed

lemma pair_less: "even n \<Longrightarrow> i < n \<Longrightarrow> pair i < n"
  unfolding pair_def by presburger

lemma cross_entropy_pointwise:
  assumes n: "0 < n" and ev: "even n"
  shows "cross_entropy (map (\<lambda>i. map (\<lambda>j. f i j) [0..<n]) [0..<n]) (targets n)
       = Inr ((\<Sum>i<n. ln (\<Sum>j<n. exp (f i j)) - f i (pair i)) / real n)"
proof -
  let ?M = "map (\<lambda>i. map (\<lambda>j. f i j) [0..<n]) [0..<n]"
  have ok: "list_all (\<lambda>(row, c). 0 \<le> c \<and> c < int (length row)) (zip ?M (targets n))"
    using targets_in_range [OF ev] by (simp add: list_all_length)
  have ne: "?M \<noteq> []" using n by simp
  have se: "sum_list (map exp (map (f i) [0..<n])) = (\<Sum>j<n. exp (f i j))" for i
    by (simp add: sum_list_sum_nth atLeast0LessThan comp_def)
  have row: "(\<lambda>(row, c). - (log_softmax row ! nat c)) (zip ?M (targets n) ! i)
      = ln (\<Sum>j<n. exp (f i j)) - f i (pair i)" if "i < n" for i
    using that targets_in_range [OF ev that] pair_less [OF ev that] se [of i]
    by (simp add: log_softmax_def)
  have "sum_list (map (\<lambda>(row, c). - (log_softmax row ! nat c)) (zip ?M (targets n)))
      = (\<Sum>i<n. ln (\<Sum>j<n. exp (f i j)) - f i (pair i))"
    unfolding sum_list_sum_nth
    by (rule sum.cong) (use row in \<open>simp_all add: atLeast0LessThan\<close>)
  with ok ne show ?thesis by (simp add: cross_entropy_def)
qed

lemma nt_xent_pointwise:
  assumes "0 < length x" "even (length x)" "t \<noteq> 0"
  shows "nt_xent x t = Inr ((\<Sum>i<length x. row_loss x t i) / real (length x))"
proof -
  have len: "length (normalize x) = length x" by (simp add: normalize_def)
  have "nt_xent x t =
    (case cross_entropy (map (\<lambda>i. map (\<lambda>j. logit x t i j) [0..<length x]) [0..<length x])
        (targets (length x)) of Inl e \<Rightarrow> Inl e | Inr loss \<Rightarrow> Inr loss)"
    unfolding nt_xent_def Let_def x_scale_eq len using assms(3)
    by (simp split: sum.splits)
  then show ?thesis
    by (simp add: cross_entropy_pointwise [OF assms(1,2)] row_loss_def)
qed


section \<open>Row losses\<close>







section \<open>Normalisation, scaling and clamping\<close>







lemma normalize_row_unit: "norm2 v = 1 \<Longrightarrow> normalize_row v = v"
  by (simp add: normalize_row_def max_def map_idI)

lemma normalize_unit: "list_all (\<lambda>v. norm2 v = 1) x \<Longrightarrow> normalize x = x"
  by (simp add: normalize_def list_all_iff normalize_row_unit map_idI)


lemma nt_xent_scores_cong:
  assumes "length x = length y"
    and "clamp_min (matmul_T (normalize x) (normalize x)) (1 / 10 ^ 7)
       = clamp_min (matmul_T (normalize y) (normalize y)) (1 / 10 ^ 7)"
  shows "nt_xent x t = nt_xent y t"
proof -
  have "length (normalize x) = length (normalize y)"
    using assms(1) by (simp add: normalize_def)
  with assms(2) show ?thesis
    unfolding nt_xent_def Let_def by simp
qed

lemma clamped_scores_eq:
  assumes len: "length x = length y"
    and agree: "\<forall>i<length x. \<forall>j<length x.
        max (dot (x ! i) (x ! j)) (1 / 10 ^ 7) = max (dot (y ! i) (y ! j)) (1 / 10 ^ 7)"
  shows "clamp_min (matmul_T x x) (1 / 10 ^ 7) = clamp_min (matmul_T y y) (1 / 10 ^ 7)"
proof (rule nth_equalityI)
  show "length (clamp_min (matmul_T x x) (1 / 10 ^ 7)) = length (clamp_min (matmul_T y y) (1 / 10 ^ 7))"
    using len by (simp add: clamp_min_def matmul_T_def)
  fix i assume "i < length (clamp_min (matmul_T x x) (1 / 10 ^ 7))"
  then have i: "i < length x" by (simp add: clamp_min_def matmul_T_def)
  show "clamp_min (matmul_T x x) (1 / 10 ^ 7) ! i = clamp_min (matmul_T y y) (1 / 10 ^ 7) ! i"
  proof (rule nth_equalityI)
    have iy: "i < length y" using i len by simp
    show "length (clamp_min (matmul_T x x) (1 / 10 ^ 7) ! i)
        = length (clamp_min (matmul_T y y) (1 / 10 ^ 7) ! i)"
      using i iy len by (simp add: clamp_min_def matmul_T_def)
    fix j assume "j < length (clamp_min (matmul_T x x) (1 / 10 ^ 7) ! i)"
    then have j: "j < length x" using i by (simp add: clamp_min_def matmul_T_def)
    from agree i j have "max (dot (x ! i) (x ! j)) (1 / 10 ^ 7)
        = max (dot (y ! i) (y ! j)) (1 / 10 ^ 7)" by blast
    moreover have "i < length y" "j < length y" using i j len by simp_all
    ultimately show "clamp_min (matmul_T x x) (1 / 10 ^ 7) ! i ! j
        = clamp_min (matmul_T y y) (1 / 10 ^ 7) ! i ! j"
      using i j by (simp add: clamp_min_def matmul_T_def)
  qed
qed

lemma max_agree:
  fixes a b c :: real
  assumes "c < a \<or> c < b \<longrightarrow> a = b"
  shows "max a c = max b c"
proof (cases "c < a \<or> c < b")
  case True
  with assms have "a = b" by (rule mp)
  then show ?thesis by (rule arg_cong)
next
  case False
  then have "a \<le> c" "b \<le> c" by linarith+
  then show ?thesis by (simp add: max_def)
qed

section \<open>Two pairs of one-dimensional rows\<close>






section \<open>The specification's loss and the code\<close>






section \<open>Claims about the loss\<close>







text \<open>
  C9. For every \<open>t > 0\<close> and every two matrices of the same even, positive number of
  rows whose rows are unit vectors, if the pairwise dot products agree wherever one of
  them exceeds \<open>1e-7\<close> (elsewhere both are at most \<open>1e-7\<close>), \<open>nt_xent\<close> returns the same
  loss on both.
\<close>

theorem nt_xent_clamp_blind:
  assumes len: "length x = 2 * N" "length x' = 2 * N" and N: "0 < N" and t: "0 < t"
    and ux: "list_all (\<lambda>v. norm2 v = 1) x" and ux': "list_all (\<lambda>v. norm2 v = 1) x'"
    and agree: "\<forall>i<2 * N. \<forall>j<2 * N.
        (1 / 10 ^ 7 < dot (x ! i) (x ! j) \<or> 1 / 10 ^ 7 < dot (x' ! i) (x' ! j))
          \<longrightarrow> dot (x ! i) (x ! j) = dot (x' ! i) (x' ! j)"
  shows "\<exists>v. nt_xent x t = Inr v \<and> nt_xent x' t = Inr v"
proof -
  have m: "max (dot (x ! i) (x ! j)) (1 / 10 ^ 7) = max (dot (x' ! i) (x' ! j)) (1 / 10 ^ 7)"
    if "i < 2 * N" "j < 2 * N" for i j
  proof (rule max_agree)
    from agree that show "(1 / 10 ^ 7 < dot (x ! i) (x ! j) \<or> 1 / 10 ^ 7 < dot (x' ! i) (x' ! j))
          \<longrightarrow> dot (x ! i) (x ! j) = dot (x' ! i) (x' ! j)"
      by blast
  qed
  have len': "length x = length x'" using len by simp
  have all: "\<forall>i<length x. \<forall>j<length x.
        max (dot (x ! i) (x ! j)) (1 / 10 ^ 7) = max (dot (x' ! i) (x' ! j)) (1 / 10 ^ 7)"
    unfolding len by (intro allI impI m)
  have sc: "clamp_min (matmul_T x x) (1 / 10 ^ 7) = clamp_min (matmul_T x' x') (1 / 10 ^ 7)"
    by (rule clamped_scores_eq [OF len' all])
  have nx: "normalize x = x" and nx': "normalize x' = x'"
    using ux ux' by (simp_all add: normalize_unit)
  have eq: "nt_xent x t = nt_xent x' t"
    by (rule nt_xent_scores_cong [OF len']) (simp only: nx nx' sc)
  have a: "nt_xent x t = Inr ((\<Sum>i<length x. row_loss x t i) / real (length x))"
    using len N t by (intro nt_xent_pointwise) simp_all
  have b: "nt_xent x' t = Inr ((\<Sum>i<length x. row_loss x t i) / real (length x))"
    unfolding eq [symmetric] by (rule a)
  from a b show ?thesis by blast
qed

theorem nt_xent_clamp_blind_witness:
  "\<exists>v. nt_xent [[1, 0], [0, 1]] 1 = Inr v \<and> nt_xent [[1, 0], [- 1, 0]] 1 = Inr v"
proof -
  let ?x = "[[1, 0], [0, 1 :: real]]"
  let ?x' = "[[1, 0], [- 1, 0 :: real]]"
  have ux: "list_all (\<lambda>v. norm2 v = 1) ?x" and ux': "list_all (\<lambda>v. norm2 v = 1) ?x'"
    by (simp_all add: norm2_def)
  have agree: "\<forall>i<2 * 1. \<forall>j<2 * 1.
        (1 / 10 ^ 7 < dot (?x ! i) (?x ! j) \<or> 1 / 10 ^ 7 < dot (?x' ! i) (?x' ! j))
          \<longrightarrow> dot (?x ! i) (?x ! j) = dot (?x' ! i) (?x' ! j)"
    by (simp add: All_less_Suc numeral_eq_Suc dot_def)
  have "length ?x = 2 * 1" "length ?x' = 2 * 1" "(0 :: nat) < 1" "(0 :: real) < 1"
    by simp_all
  from nt_xent_clamp_blind [OF this ux ux' agree] show ?thesis .
qed


section \<open>The loss and the cosine similarities of the rows\<close>


lemma dot_Nil [simp]: "dot [] v = 0" "dot u [] = 0"
  by (simp_all add: dot_def)






























section \<open>Properties of the paired batch\<close>

lemma index_in_range:
  "0 \<le> i \<Longrightarrow> i < int (length xs) \<Longrightarrow> index xs i = Inr (xs ! nat i)"
  by (simp add: index_def)

lemma getitem_value:
  assumes "0 \<le> idx" "idx < int (length (data ds))" "length (labels ds) = length (data ds)"
  shows "getitem ds idx rng =
     Inr (([fst (transform ds (data ds ! nat idx) rng),
            fst (transform ds (data ds ! nat idx) (snd (transform ds (data ds ! nat idx) rng)))],
           labels ds ! nat idx),
          snd (transform ds (data ds ! nat idx) (snd (transform ds (data ds ! nat idx) rng))))"
  using assms by (simp add: getitem_def index_in_range split_beta Let_def)

lemma fetch_items:
  assumes "list_all (\<lambda>i. 0 \<le> i \<and> i < int (length (data ds))) idxs"
    and "length (labels ds) = length (data ds)"
  shows "\<exists>items rng'. fetch ds idxs rng = Inr (items, rng')
     \<and> length items = length idxs
     \<and> (\<forall>k<length idxs. \<exists>r. fst (items ! k) =
          [fst (transform ds (data ds ! nat (idxs ! k)) r),
           fst (transform ds (data ds ! nat (idxs ! k))
                 (snd (transform ds (data ds ! nat (idxs ! k)) r)))])"
  using assms(1)
proof (induction idxs arbitrary: rng)
  case Nil
  then show ?case by simp
next
  case (Cons i idxs)
  from Cons.prems have i: "0 \<le> i" "i < int (length (data ds))"
    and rest: "list_all (\<lambda>i. 0 \<le> i \<and> i < int (length (data ds))) idxs"
    by simp_all
  let ?img = "data ds ! nat i"
  let ?r1 = "snd (transform ds ?img rng)"
  let ?r2 = "snd (transform ds ?img ?r1)"
  let ?item = "([fst (transform ds ?img rng), fst (transform ds ?img ?r1)], labels ds ! nat i)"
  have g: "getitem ds i rng = Inr (?item, ?r2)"
    by (rule getitem_value [OF i assms(2)])
  from Cons.IH [OF rest, of ?r2] obtain items rng' where
    f: "fetch ds idxs ?r2 = Inr (items, rng')" and l: "length items = length idxs"
    and v: "\<forall>k<length idxs. \<exists>r. fst (items ! k) =
          [fst (transform ds (data ds ! nat (idxs ! k)) r),
           fst (transform ds (data ds ! nat (idxs ! k))
                 (snd (transform ds (data ds ! nat (idxs ! k)) r)))]"
    by blast
  have run: "fetch ds (i # idxs) rng = Inr (?item # items, rng')"
    by (simp add: g f)
  have "\<exists>r. fst ((?item # items) ! k) =
          [fst (transform ds (data ds ! nat ((i # idxs) ! k)) r),
           fst (transform ds (data ds ! nat ((i # idxs) ! k))
                 (snd (transform ds (data ds ! nat ((i # idxs) ! k)) r)))]"
    if "k < length (i # idxs)" for k
  proof (cases k)
    case 0
    then show ?thesis by auto
  next
    case (Suc k')
    with that have "k' < length idxs" by simp
    with v Suc show ?thesis by simp
  qed
  with run l show ?case by simp
qed

lemma concat_pairs:
  assumes "list_all (\<lambda>p. length p = 2) xs" "k < length xs"
  shows "length (concat xs) = 2 * length xs
     \<and> concat xs ! (2 * k) = xs ! k ! 0 \<and> concat xs ! (2 * k + 1) = xs ! k ! 1"
  using assms
proof (induction xs arbitrary: k)
  case Nil
  then show ?case by simp
next
  case (Cons p xs)
  from Cons.prems have p: "length p = 2" and rest: "list_all (\<lambda>p. length p = 2) xs"
    by simp_all
  have len: "length (concat xs) = 2 * length xs"
    using rest by (induction xs) simp_all
  show ?case
  proof (cases k)
    case 0
    with p len show ?thesis by (simp add: nth_append)
  next
    case (Suc k')
    with Cons.prems have "k' < length xs" by simp
    from Cons.IH [OF rest this] Suc p len show ?thesis
      by (simp add: nth_append)
  qed
qed

text \<open>
  C8. For every dataset index in range, \<open>__getitem__\<close> returns exactly two views of the
  same source image, each one call of the transform on that image with its own draw
  from the random state, stacked in order; and for a batch of \<open>N\<close> indices the
  flattening of the training loop yields \<open>2N\<close> rows in which rows \<open>2k\<close> and \<open>2k + 1\<close> are
  the two views of the image of the \<open>k\<close>-th index, for every \<open>k < N\<close>.
\<close>

theorem paired_batch_layout:
  assumes "list_all (\<lambda>i. 0 \<le> i \<and> i < int (length (data ds))) idxs"
    and "length (labels ds) = length (data ds)"
  shows "(\<forall>k<length idxs. \<forall>r. \<exists>r'. getitem ds (idxs ! k) r =
           Inr (([fst (transform ds (data ds ! nat (idxs ! k)) r),
                  fst (transform ds (data ds ! nat (idxs ! k))
                        (snd (transform ds (data ds ! nat (idxs ! k)) r)))],
                 labels ds ! nat (idxs ! k)), r'))
     \<and> (\<exists>items rng' x. fetch ds idxs rng = Inr (items, rng')
          \<and> view_pairs (map fst items) = Inr x
          \<and> length x = 2 * length idxs
          \<and> (\<forall>k<length idxs. \<exists>r.
                x ! (2 * k) = fst (transform ds (data ds ! nat (idxs ! k)) r)
              \<and> x ! (2 * k + 1) = fst (transform ds (data ds ! nat (idxs ! k))
                                        (snd (transform ds (data ds ! nat (idxs ! k)) r)))))"
proof (rule conjI)
  show "\<forall>k<length idxs. \<forall>r. \<exists>r'. getitem ds (idxs ! k) r =
           Inr (([fst (transform ds (data ds ! nat (idxs ! k)) r),
                  fst (transform ds (data ds ! nat (idxs ! k))
                        (snd (transform ds (data ds ! nat (idxs ! k)) r)))],
                 labels ds ! nat (idxs ! k)), r')"
  proof (intro allI impI)
    fix k r assume "k < length idxs"
    with assms(1) have "0 \<le> idxs ! k" "idxs ! k < int (length (data ds))"
      by (simp_all add: list_all_length)
    from getitem_value [OF this assms(2)]
    show "\<exists>r'. getitem ds (idxs ! k) r =
           Inr (([fst (transform ds (data ds ! nat (idxs ! k)) r),
                  fst (transform ds (data ds ! nat (idxs ! k))
                        (snd (transform ds (data ds ! nat (idxs ! k)) r)))],
                 labels ds ! nat (idxs ! k)), r')"
      by blast
  qed
next
  from fetch_items [OF assms, of rng] obtain items rng' where
    f: "fetch ds idxs rng = Inr (items, rng')" and l: "length items = length idxs"
    and v: "\<forall>k<length idxs. \<exists>r. fst (items ! k) =
          [fst (transform ds (data ds ! nat (idxs ! k)) r),
           fst (transform ds (data ds ! nat (idxs ! k))
                 (snd (transform ds (data ds ! nat (idxs ! k)) r)))]"
    by blast
  have two: "list_all (\<lambda>p. length p = 2) (map fst items)"
    unfolding list_all_length
  proof (intro allI impI)
    fix k assume "k < length (map fst items)"
    then have k: "k < length idxs" using l by simp
    with v obtain r where "fst (items ! k) =
          [fst (transform ds (data ds ! nat (idxs ! k)) r),
           fst (transform ds (data ds ! nat (idxs ! k))
                 (snd (transform ds (data ds ! nat (idxs ! k)) r)))]" by blast
    then show "length (map fst items ! k) = 2" using k l by simp
  qed
  then have vp: "view_pairs (map fst items) = Inr (concat (map fst items))"
    by (simp add: view_pairs_def)
  have len: "length (concat (map fst items)) = 2 * length idxs"
  proof (cases idxs)
    case Nil
    with l show ?thesis by simp
  next
    case (Cons i rest)
    then have "0 < length (map fst items)" using l by simp
    from concat_pairs [OF two this] l show ?thesis by simp
  qed
  have rows: "\<exists>r. concat (map fst items) ! (2 * k)
        = fst (transform ds (data ds ! nat (idxs ! k)) r)
      \<and> concat (map fst items) ! (2 * k + 1)
        = fst (transform ds (data ds ! nat (idxs ! k))
               (snd (transform ds (data ds ! nat (idxs ! k)) r)))"
    if k: "k < length idxs" for k
  proof -
    from v k obtain r where r: "fst (items ! k) =
          [fst (transform ds (data ds ! nat (idxs ! k)) r),
           fst (transform ds (data ds ! nat (idxs ! k))
                 (snd (transform ds (data ds ! nat (idxs ! k)) r)))]" by blast
    have k': "k < length (map fst items)" using k l by simp
    from concat_pairs [OF two k'] r k l show ?thesis
      by (intro exI [of _ r]) simp
  qed
  from f vp len rows
  show "\<exists>items rng' x. fetch ds idxs rng = Inr (items, rng')
          \<and> view_pairs (map fst items) = Inr x
          \<and> length x = 2 * length idxs
          \<and> (\<forall>k<length idxs. \<exists>r.
                x ! (2 * k) = fst (transform ds (data ds ! nat (idxs ! k)) r)
              \<and> x ! (2 * k + 1) = fst (transform ds (data ds ! nat (idxs ! k))
                                        (snd (transform ds (data ds ! nat (idxs ! k)) r))))"
    by blast
qed

theorem paired_batch_layout_witness:
  "\<exists>items rng'.
     fetch \<lparr>data = [10, 20, 30 :: nat], labels = [0, 1, 2],
            transform = (\<lambda>img r. (img + r, r + 1 :: nat))\<rparr> [2, 0] 0 = Inr (items, rng')
     \<and> view_pairs (map fst items) = Inr [30, 31, 12, 13]"
proof -
  let ?ds = "\<lparr>data = [10, 20, 30 :: nat], labels = [0, 1, 2],
            transform = (\<lambda>img r. (img + r, r + 1 :: nat))\<rparr>"
  have h: "list_all (\<lambda>i. 0 \<le> i \<and> i < int (length (data ?ds))) [2, 0]"
    "length (labels ?ds) = length (data ?ds)"
    by simp_all
  from paired_batch_layout [OF h, of 0] obtain items rng' x where
    f: "fetch ?ds [2, 0] 0 = Inr (items, rng')"
    and vp: "view_pairs (map fst items) = Inr x"
    by blast
  have "fetch ?ds [2, 0] 0 = Inr ([([30, 31], 2), ([12, 13], 0)], 4)"
    by (simp add: getitem_def index_def)
  with f have "items = [([30, 31], 2), ([12, 13], 0)]" by simp
  then have "view_pairs (map fst items) = Inr [30, 31, 12, 13]"
    by (simp add: view_pairs_def)
  with f show ?thesis by blast
qed


section \<open>Properties of the training driver\<close>

lemma applied_lrs_append: "applied_lrs (xs @ ys) = applied_lrs xs @ applied_lrs ys"
  by (induction xs rule: applied_lrs.induct) simp_all

lemma lr_lambda_value:
  assumes "epochs args * int len_loader \<noteq> 0"
  shows "lr_lambda args len_loader step =
     Inr (cosine_rate (of_int step) (of_int (epochs args * int len_loader))
            (learning_rate args) (1 / 10 ^ 3))"
  using assms by (simp add: lr_lambda_def get_lr_def cosine_rate_def)

lemma batch_loop_rates:
  assumes T: "epochs args * int len_loader \<noteq> 0"
    and inv: "lr st = learning_rate args *
        cosine_rate (of_int (last_epoch st)) (of_int (epochs args * int len_loader))
          (learning_rate args) (1 / 10 ^ 3)"
  shows "\<exists>st'. batch_loop args len_loader k st = Inr st'
     \<and> last_epoch st' = last_epoch st + int k
     \<and> lr st' = learning_rate args *
          cosine_rate (of_int (last_epoch st')) (of_int (epochs args * int len_loader))
            (learning_rate args) (1 / 10 ^ 3)
     \<and> applied_lrs (trace st') = applied_lrs (trace st) @
          map (\<lambda>i. learning_rate args *
                 cosine_rate (of_int (last_epoch st + int i)) (of_int (epochs args * int len_loader))
                   (learning_rate args) (1 / 10 ^ 3)) [0..<k]"
  using inv
proof (induction k arbitrary: st)
  case 0
  then show ?case by simp
next
  case (Suc k)
  let ?rate = "\<lambda>e. learning_rate args *
      cosine_rate (of_int e) (of_int (epochs args * int len_loader)) (learning_rate args) (1 / 10 ^ 3)"
  define st1 where "st1 = st\<lparr>trace := trace st @ [ZeroGrad, Forward, Backward, OptimizerStep (lr st)]\<rparr>"
  define st2 where "st2 = st1\<lparr>trace := trace st1 @ [SchedulerStep],
      lr := ?rate (last_epoch st1 + 1), last_epoch := last_epoch st1 + 1\<rparr>"
  define st3 where "st3 = st2\<lparr>trace := trace st2 @ [MeterUpdate]\<rparr>"
  have s: "scheduler_step args len_loader st1 = Inr st2"
    by (simp add: scheduler_step_def lr_lambda_value [OF T] st2_def)
  have unfold: "batch_loop args len_loader (Suc k) st = batch_loop args len_loader k st3"
    by (simp add: Let_def s st1_def [symmetric] st3_def)
  have inv3: "lr st3 = ?rate (last_epoch st3)"
    by (simp add: st3_def st2_def)
  from Suc.IH [OF inv3] obtain st' where
    run: "batch_loop args len_loader k st3 = Inr st'"
    and le: "last_epoch st' = last_epoch st3 + int k"
    and lr': "lr st' = ?rate (last_epoch st')"
    and ap: "applied_lrs (trace st') = applied_lrs (trace st3) @
          map (\<lambda>i. ?rate (last_epoch st3 + int i)) [0..<k]"
    by blast
  have e3: "last_epoch st3 = last_epoch st + 1"
    by (simp add: st3_def st2_def st1_def)
  have t3: "applied_lrs (trace st3) = applied_lrs (trace st) @ [?rate (last_epoch st)]"
    using Suc.prems by (simp add: st3_def st2_def st1_def applied_lrs_append)
  have m: "map (\<lambda>i. ?rate (last_epoch st + int i)) [0..<Suc k]
      = ?rate (last_epoch st) # map (\<lambda>i. ?rate (last_epoch st3 + int i)) [0..<k]"
    by (simp only: map_upt_Suc e3) (simp add: add.commute add.left_commute)
  show ?case
    unfolding unfold using run le lr' ap
    by (simp only: t3 m e3) simp
qed

lemma upt_split_map:
  "map f [0..<a + b] = map f [0..<a] @ map (\<lambda>i. f (a + i)) [0..<b]"
proof -
  have "[0..<a + b] = [0..<a] @ map (\<lambda>i. a + i) [0..<b]"
    by (induction b) simp_all
  then show ?thesis by (simp add: comp_def)
qed

lemma epoch_loop_rates:
  assumes T: "epochs args * int len_loader \<noteq> 0"
    and li: "0 < log_interval args"
    and inv: "lr st = learning_rate args *
        cosine_rate (of_int (last_epoch st)) (of_int (epochs args * int len_loader))
          (learning_rate args) (1 / 10 ^ 3)"
  shows "\<exists>st'. epoch_loop args len_loader n epoch st = Inr st'
     \<and> applied_lrs (trace st') = applied_lrs (trace st) @
          map (\<lambda>i. learning_rate args *
                 cosine_rate (of_int (last_epoch st + int i)) (of_int (epochs args * int len_loader))
                   (learning_rate args) (1 / 10 ^ 3)) [0..<n * len_loader]"
  using inv
proof (induction n arbitrary: epoch st)
  case 0
  then show ?case by simp
next
  case (Suc n)
  let ?rate = "\<lambda>e. learning_rate args *
      cosine_rate (of_int e) (of_int (epochs args * int len_loader)) (learning_rate args) (1 / 10 ^ 3)"
  define st0 where "st0 = st\<lparr>trace := trace st @ [NewMeter]\<rparr>"
  have inv0: "lr st0 = ?rate (last_epoch st0)"
    using Suc.prems by (simp add: st0_def)
  from batch_loop_rates [OF T inv0, of len_loader] obtain st1 where
    b: "batch_loop args len_loader len_loader st0 = Inr st1"
    and e1: "last_epoch st1 = last_epoch st + int len_loader"
    and lr1: "lr st1 = ?rate (last_epoch st1)"
    and ap1: "applied_lrs (trace st1) = applied_lrs (trace st) @
          map (\<lambda>i. ?rate (last_epoch st + int i)) [0..<len_loader]"
    by (auto simp: st0_def applied_lrs_append)
  define st2 where "st2 = (if epoch \<ge> log_interval args \<and> epoch mod log_interval args = 0
      then st1\<lparr>trace := trace st1 @ [LogInfo, SaveCheckpoint epoch]\<rparr> else st1)"
  have unfold: "epoch_loop args len_loader (Suc n) epoch st
      = epoch_loop args len_loader n (epoch + 1) st2"
    using li by (simp add: st0_def [symmetric] b st2_def)
  have inv2: "lr st2 = ?rate (last_epoch st2)"
    using lr1 by (simp add: st2_def)
  have e2: "last_epoch st2 = last_epoch st + int len_loader"
    using e1 by (simp add: st2_def)
  have ap2: "applied_lrs (trace st2) = applied_lrs (trace st1)"
    by (simp add: st2_def applied_lrs_append)
  from Suc.IH [OF inv2, of "epoch + 1"] obtain st' where
    run: "epoch_loop args len_loader n (epoch + 1) st2 = Inr st'"
    and ap: "applied_lrs (trace st') = applied_lrs (trace st2) @
          map (\<lambda>i. ?rate (last_epoch st2 + int i)) [0..<n * len_loader]"
    by blast
  have m: "map (\<lambda>i. ?rate (last_epoch st + int i)) [0..<Suc n * len_loader]
      = map (\<lambda>i. ?rate (last_epoch st + int i)) [0..<len_loader]
        @ map (\<lambda>i. ?rate (last_epoch st2 + int i)) [0..<n * len_loader]"
    by (simp add: upt_split_map e2 add.assoc)
  have fin: "applied_lrs (trace st') = applied_lrs (trace st) @
      map (\<lambda>i. ?rate (last_epoch st + int i)) [0..<Suc n * len_loader]"
    unfolding ap ap2 ap1 m by simp
  show ?case
    unfolding unfold by (rule exI [of _ st']) (use run fin in blast)
qed

lemma train_rates:
  assumes bb: "backbone args = ''resnet18'' \<or> backbone args = ''resnet34''"
    and ep: "0 < epochs args" and ll: "0 < len_loader" and li: "0 < log_interval args"
  shows "\<exists>st. train args len_loader = Inr st
     \<and> applied_lrs (trace st) =
          map (\<lambda>s. learning_rate args *
                 cosine_rate (real s) (of_int (epochs args * int len_loader))
                   (learning_rate args) (1 / 10 ^ 3)) [0..<nat (epochs args) * len_loader]"
proof -
  have T: "epochs args * int len_loader \<noteq> 0" using ep ll by simp
  let ?rate = "\<lambda>e. learning_rate args *
      cosine_rate (of_int e) (of_int (epochs args * int len_loader)) (learning_rate args) (1 / 10 ^ 3)"
  define st0 where "st0 = \<lparr>trace = [PrintProjectionDim, SetCudnnBenchmark, EmptyCudaCache,
      BuildTransform, LoadDataset, BuildDataLoader, FitDisentangler, BuildModel, LogInfo, LogInfo,
      BuildOptimizer, BuildScheduler, ModelTrain], lr = ?rate 0, last_epoch = 0\<rparr>"
  have unfold: "train args len_loader = epoch_loop args len_loader (nat (epochs args)) 1 st0"
    using bb by (auto simp: train_def lr_lambda_value [OF T] st0_def)
  have inv: "lr st0 = ?rate (last_epoch st0)" by (simp add: st0_def)
  from epoch_loop_rates [OF T li inv, of "nat (epochs args)" 1] obtain st where
    run: "epoch_loop args len_loader (nat (epochs args)) 1 st0 = Inr st"
    and ap: "applied_lrs (trace st) = applied_lrs (trace st0) @
          map (\<lambda>i. ?rate (last_epoch st0 + int i)) [0..<nat (epochs args) * len_loader]"
    by blast
  have "applied_lrs (trace st0) = []" by (simp add: st0_def)
  with ap have "applied_lrs (trace st) =
      map (\<lambda>s. ?rate (int s)) [0..<nat (epochs args) * len_loader]"
    by (simp add: st0_def)
  with run unfold show ?thesis by simp
qed

text \<open>
  C5, as the claim states it, fails: the assertion on the backbone stands after the
  dataset is built with \<open>download=True\<close> and after the loader is built, so a run with
  the backbone \<open>vgg16\<close> has loaded the dataset when it stops.
\<close>

theorem invalid_backbone_counterexample:
  "train \<lparr>backbone = ''vgg16'', epochs = 1, learning_rate = 6 / 10, log_interval = 1\<rparr> 1
     = Inl (AssertionError,
         [PrintProjectionDim, SetCudnnBenchmark, EmptyCudaCache, BuildTransform,
          LoadDataset, BuildDataLoader])"
  by (simp add: train_def)

text \<open>
  C5, amended. If the configured backbone is neither \<open>resnet18\<close> nor \<open>resnet34\<close>, the
  program fails by its assertion after the dataset has been downloaded or loaded and
  the data loader built, and before the disentangler pretraining, the construction of
  the model, the optimizer and the scheduler, and any training step.
\<close>

theorem invalid_backbone_fails:
  assumes "backbone args \<noteq> ''resnet18''" "backbone args \<noteq> ''resnet34''"
  shows "train args len_loader
     = Inl (AssertionError,
         [PrintProjectionDim, SetCudnnBenchmark, EmptyCudaCache, BuildTransform,
          LoadDataset, BuildDataLoader])"
  using assms by (simp add: train_def)

theorem invalid_backbone_fails_witness:
  "train \<lparr>backbone = ''resnet50'', epochs = 2, learning_rate = 6 / 10, log_interval = 1\<rparr> 3
     = Inl (AssertionError,
         [PrintProjectionDim, SetCudnnBenchmark, EmptyCudaCache, BuildTransform,
          LoadDataset, BuildDataLoader])"
  using invalid_backbone_fails
    [of "\<lparr>backbone = ''resnet50'', epochs = 2, learning_rate = 6 / 10, log_interval = 1\<rparr>" 3]
  by simp

text \<open>
  C3. What the code does: with a valid backbone, at least one epoch, at least one
  batch per epoch and a positive checkpoint interval, the run ends normally, it makes
  \<open>T = epochs * len(train_loader)\<close> optimizer steps, and the rate applied at step \<open>s\<close>
  is the configured \<open>learning_rate\<close> times the cosine rate at \<open>s\<close>, since \<open>LambdaLR\<close>
  multiplies the base rate by what \<open>get_lr\<close> returns. The rate is recomputed after
  every optimizer step, as the claim says, but it is the claim's rate only for
  \<open>learning_rate = 1\<close>.
\<close>

theorem train_applied_rate:
  assumes "backbone args = ''resnet18'' \<or> backbone args = ''resnet34''"
    and "0 < epochs args" and "0 < len_loader" and "0 < log_interval args"
    and "s < nat (epochs args) * len_loader"
  shows "\<exists>st. train args len_loader = Inr st
     \<and> length (applied_lrs (trace st)) = nat (epochs args) * len_loader
     \<and> applied_lrs (trace st) ! s =
          learning_rate args *
            cosine_rate (real s) (of_int (epochs args * int len_loader))
              (learning_rate args) (1 / 10 ^ 3)"
proof -
  from train_rates [OF assms(1-4)] obtain st where
    run: "train args len_loader = Inr st"
    and ap: "applied_lrs (trace st) =
          map (\<lambda>s. learning_rate args *
                 cosine_rate (real s) (of_int (epochs args * int len_loader))
                   (learning_rate args) (1 / 10 ^ 3)) [0..<nat (epochs args) * len_loader]"
    by blast
  have len: "length (applied_lrs (trace st)) = nat (epochs args) * len_loader"
    by (simp add: ap)
  have "applied_lrs (trace st) ! s =
      learning_rate args *
        cosine_rate (real s) (of_int (epochs args * int len_loader))
          (learning_rate args) (1 / 10 ^ 3)"
    using assms(5) by (simp only: ap nth_map_upt) simp
  with run len show ?thesis by blast
qed

text \<open>
  At \<open>learning_rate = 0.5\<close>, one epoch of two batches: the first optimizer step runs at
  \<open>0.25\<close>, where the claim's formula gives \<open>0.5\<close>.
\<close>

theorem train_applied_rate_witness:
  "\<exists>st. train \<lparr>backbone = ''resnet18'', epochs = 1, learning_rate = 1 / 2, log_interval = 1\<rparr> 2
          = Inr st
     \<and> length (applied_lrs (trace st)) = 2
     \<and> applied_lrs (trace st) ! 0 = 1 / 4
     \<and> cosine_rate 0 2 (1 / 2) (1 / 10 ^ 3) = 1 / 2"
proof -
  let ?args = "\<lparr>backbone = ''resnet18'', epochs = 1, learning_rate = 1 / 2, log_interval = 1\<rparr>"
  have h: "backbone ?args = ''resnet18'' \<or> backbone ?args = ''resnet34''"
    "0 < epochs ?args" "0 < (2 :: nat)" "0 < log_interval ?args"
    "0 < nat (epochs ?args) * 2"
    by simp_all
  have c: "cosine_rate 0 2 (1 / 2) (1 / 10 ^ 3) = 1 / 2"
    by (simp add: cosine_rate_def)
  from train_applied_rate [OF h] obtain st where
    run: "train ?args 2 = Inr st"
    and len: "length (applied_lrs (trace st)) = nat (epochs ?args) * 2"
    and r: "applied_lrs (trace st) ! 0 = learning_rate ?args *
        cosine_rate (real 0) (of_int (epochs ?args * int 2)) (learning_rate ?args) (1 / 10 ^ 3)"
    by blast
  from len have len': "length (applied_lrs (trace st)) = 2" by simp
  from r have "applied_lrs (trace st) ! 0 = 1 / 4"
    by (simp add: cosine_rate_def)
  with run len' c show ?thesis by blast
qed

end
